theory Spec2Isabelle
  imports Complex_Main
begin

section \<open>Values, errors and the host runtime\<close>

text \<open>
  The repository is TypeScript. Values of type \<^verbatim>\<open>unknown\<close> that reach the code come from
  JSON documents and from callers; they are modelled by \<open>jsvalue\<close>. An optional
  property of a declared type (\<^verbatim>\<open>validator.params?.words\<close>) that is absent or \<^verbatim>\<open>undefined\<close> is
  \<open>None\<close> of an option. Numbers are IEEE doubles in the source; the model
  takes them as reals (no NaN, no infinities, no rounding). Strings are lists of
  \<open>char\<close>, taken as ASCII text; \<^verbatim>\<open>s.length\<close> is \<open>length s\<close>. \<open>JFun name\<close> is a function of
  the host, known by its name, and \<open>JStringObject s\<close> is the object that wraps the
  string \<open>s\<close> (the value of \<^verbatim>\<open>Object(s)\<close>).
\<close>

datatype jsvalue =
    JUndefined
  | JNull
  | JBool bool
  | JNum real
  | JStr string
  | JArr "jsvalue list"
  | JObj "(string \<times> jsvalue) list"
  | JFun string
  | JStringObject string



text \<open>
  An object that the source uses as a dictionary (\<^verbatim>\<open>Record<string, T>\<close>: an object literal
  or an object read from JSON, whose prototype is \<^verbatim>\<open>Object.prototype\<close>) is a map from its
  own property names to their values, and the lookup \<^verbatim>\<open>obj[name]\<close> also finds what every
  such object inherits from \<^verbatim>\<open>Object.prototype\<close>: its methods, which are functions, and
  under \<^verbatim>\<open>__proto__\<close> the prototype itself, an object with no enumerable property of its
  own. \<open>get_property\<close> is that lookup; \<open>Undefined\<close> says that the object has no such
  property, its own or inherited, so that the lookup yields \<^verbatim>\<open>undefined\<close>.
\<close>

definition object_prototype_names :: "string list" where
  "object_prototype_names =
     [''constructor'', ''hasOwnProperty'', ''isPrototypeOf'', ''propertyIsEnumerable'',
      ''toLocaleString'', ''toString'', ''valueOf'', ''__proto__'', ''__defineGetter__'',
      ''__defineSetter__'', ''__lookupGetter__'', ''__lookupSetter__'']"

definition inherited_value :: "string \<Rightarrow> jsvalue" where
  "inherited_value name = (if name = ''__proto__'' then JObj [] else JFun name)"

datatype 'a property = Own 'a | Inherited string | Undefined

definition get_property :: "(string \<rightharpoonup> 'a) \<Rightarrow> string \<Rightarrow> 'a property" where
  "get_property obj name =
     (case obj name of
        Some v \<Rightarrow> Own v
      | None \<Rightarrow> if name \<in> set object_prototype_names then Inherited name else Undefined)"

text \<open>
  The lookup in a dictionary of values (\<^verbatim>\<open>Record<string, unknown>\<close>), where an inherited
  member is a value too and a property of the object itself may hold \<^verbatim>\<open>undefined\<close>;
  \<^verbatim>\<open>value === undefined\<close> is \<open>is_undefined value\<close>.
\<close>

definition get_value :: "(string \<rightharpoonup> jsvalue) \<Rightarrow> string \<Rightarrow> jsvalue" where
  "get_value obj name =
     (case get_property obj name of
        Own v \<Rightarrow> v
      | Inherited member \<Rightarrow> inherited_value member
      | Undefined \<Rightarrow> JUndefined)"

fun is_undefined :: "jsvalue \<Rightarrow> bool" where
  "is_undefined JUndefined = True"
| "is_undefined _ = False"

text \<open>
  Messages built by template literals with numbers or lists in them are kept as
  constructors holding the interpolated values, in the order of the template.
\<close>

datatype validation_msg =
    RequiredMissing string
      \<comment> \<open>\<^verbatim>\<open>Required variable '${name}' is missing\<close>\<close>
  | MustBe string string string
      \<comment> \<open>\<^verbatim>\<open>Variable '${name}' must be ${a string | a number | ...}, got ${actualType}\<close>\<close>
  | PatternMismatch string string
      \<comment> \<open>\<^verbatim>\<open>Variable '${name}' does not match pattern ${pattern}\<close>\<close>
  | AtLeastChars string real nat
      \<comment> \<open>\<^verbatim>\<open>Variable '${name}' must be at least ${min_length} characters, got ${length}\<close>\<close>
  | AtMostChars string real nat
      \<comment> \<open>\<^verbatim>\<open>Variable '${name}' must be at most ${max_length} characters, got ${length}\<close>\<close>
  | AtLeast string real real
      \<comment> \<open>\<^verbatim>\<open>Variable '${name}' must be at least ${minimum}, got ${value}\<close>\<close>
  | AtMost string real real
      \<comment> \<open>\<^verbatim>\<open>Variable '${name}' must be at most ${maximum}, got ${value}\<close>\<close>
  | OneOf string "jsvalue list"
      \<comment> \<open>\<^verbatim>\<open>Variable '${name}' must be one of: ${enumValues.join(', ')}\<close>\<close>

datatype guardrail_msg =
    Text string
      \<comment> \<open>a message given as a string (by a custom validator)\<close>
  | ValidationFailed
      \<comment> \<open>\<^verbatim>\<open>Validation failed\<close>\<close>
  | UnknownType string
      \<comment> \<open>\<^verbatim>\<open>Unknown validator type: ${type}\<close>\<close>
  | ContainsBanned "string list"
      \<comment> \<open>\<^verbatim>\<open>Response contains banned words: ${foundWords.join(', ')}\<close>\<close>
  | ExceedsChars nat real
      \<comment> \<open>\<^verbatim>\<open>Response exceeds maximum length: ${length} > ${maxChars} characters\<close>\<close>
  | ExceedsTokens int real
      \<comment> \<open>\<^verbatim>\<open>Response exceeds maximum tokens: ~${estimatedTokens} > ${maxTokens} tokens\<close>\<close>
  | BelowChars nat real
      \<comment> \<open>\<^verbatim>\<open>Response below minimum length: ${length} < ${minChars} characters\<close>\<close>
  | BelowTokens int real
      \<comment> \<open>\<^verbatim>\<open>Response below minimum tokens: ~${estimatedTokens} < ${minTokens} tokens\<close>\<close>
  | NoPattern
      \<comment> \<open>\<^verbatim>\<open>No pattern specified\<close>\<close>
  | NotMatching string
      \<comment> \<open>\<^verbatim>\<open>Response does not match required pattern: ${pattern}\<close>\<close>
  | MatchesForbidden string
      \<comment> \<open>\<^verbatim>\<open>Response matches forbidden pattern: ${pattern}\<close>\<close>
  | InvalidRegex string
      \<comment> \<open>\<^verbatim>\<open>Invalid regex pattern: ${pattern}\<close>\<close>

type_synonym details = "(string \<times> jsvalue) list"

datatype error =
    TemplateError string
  | ValidationError validation_msg
  | GuardrailViolationError guardrail_msg string "details option"
      \<comment> \<open>message, validatorType, details\<close>
  | Error string
  | SyntaxError string
      \<comment> \<open>thrown by \<^verbatim>\<open>new RegExp(p)\<close> when \<open>p\<close> is not a regular expression\<close>
  | TypeError string
      \<comment> \<open>thrown by the host at the call of a member inherited from \<^verbatim>\<open>Object.prototype\<close>;
         in the place of the host's message, the name of the member\<close>

text \<open>
  \<^verbatim>\<open>RegExp\<close> belongs to the host, not to the repository. Where the source compiles a
  pattern that comes from its input, the model takes the engine as a parameter:
  \<open>E pattern ignoreCase subject\<close> is \<open>Inl msg\<close> when \<^verbatim>\<open>new RegExp(pattern, flags)\<close> throws
  a SyntaxError with text \<open>msg\<close>, and \<open>Inr b\<close> when \<^verbatim>\<open>.test(subject)\<close> returns \<open>b\<close>.
\<close>

type_synonym regex_engine = "string \<Rightarrow> bool \<Rightarrow> string \<Rightarrow> string + bool"

section \<open>The template engine (template-engine.ts)\<close>

subsection \<open>The placeholder pattern\<close>

text \<open>
  \<^verbatim>\<open>getSyntaxPattern\<close> escapes every regular-expression metacharacter of the configured
  syntax and then replaces each occurrence of the word \<^verbatim>\<open>variable\<close> (in any letter case)
  by the capture group \<^verbatim>\<open>([a-zA-Z_][a-zA-Z0-9_]*)\<close>. After the escaping every other
  character of the syntax stands for itself, so the compiled pattern is a sequence of
  literal characters and identifier groups.
\<close>

datatype tok = Lit char | Ident

definition lower_case :: "char \<Rightarrow> char" where
  "lower_case c =
     (case map_of (zip ''ABCDEFGHIJKLMNOPQRSTUVWXYZ'' ''abcdefghijklmnopqrstuvwxyz'') c of
        Some d \<Rightarrow> d | None \<Rightarrow> c)"

fun getSyntaxPattern :: "string \<Rightarrow> tok list" where
  "getSyntaxPattern [] = []"
| "getSyntaxPattern (c # cs) =
     (if map lower_case (take 8 (c # cs)) = ''variable''
      then Ident # getSyntaxPattern (drop 7 cs)
      else Lit c # getSyntaxPattern cs)"

definition ident_start :: "char \<Rightarrow> bool" where
  "ident_start c \<longleftrightarrow> c \<in> set ''abcdefghijklmnopqrstuvwxyzABCDEFGHIJKLMNOPQRSTUVWXYZ_''"

definition ident_char :: "char \<Rightarrow> bool" where
  "ident_char c \<longleftrightarrow>
     c \<in> set ''abcdefghijklmnopqrstuvwxyzABCDEFGHIJKLMNOPQRSTUVWXYZ0123456789_''"

text \<open>
  Matching the pattern at the start of a string, as the backtracking matcher of the
  host does: a group takes as many identifier characters as it can and gives them
  back one at a time while the rest of the pattern fails. The result is the list of
  captured groups and what is left of the string.
\<close>

definition add_capture ::
  "string \<Rightarrow> (string list \<times> string) option \<Rightarrow> (string list \<times> string) option" where
  "add_capture acc r = (case r of None \<Rightarrow> None | Some (caps, rest) \<Rightarrow> Some (acc # caps, rest))"

fun ident_tail ::
  "(string \<Rightarrow> (string list \<times> string) option) \<Rightarrow> string \<Rightarrow> string
     \<Rightarrow> (string list \<times> string) option" where
  "ident_tail k acc [] = add_capture acc (k [])"
| "ident_tail k acc (d # r) =
     (if ident_char d
      then (case ident_tail k (acc @ [d]) r of
              Some x \<Rightarrow> Some x
            | None \<Rightarrow> add_capture acc (k (d # r)))
      else add_capture acc (k (d # r)))"

primrec matchp :: "tok list \<Rightarrow> string \<Rightarrow> (string list \<times> string) option" where
  "matchp [] s = Some ([], s)"
| "matchp (t # ts) s =
     (case s of
        [] \<Rightarrow> None
      | d # r \<Rightarrow>
          (case t of
             Lit c \<Rightarrow> if d = c then matchp ts r else None
           | Ident \<Rightarrow> if ident_start d then ident_tail (matchp ts) [d] r else None))"

subsection \<open>Replacing every match through a callback\<close>

text \<open>
  \<^verbatim>\<open>text.replace(pattern, (match, name) => ...)\<close> with a global pattern: the matches are
  found from left to right, none overlapping, and the callback is called on each in
  that order. The callback of \<^verbatim>\<open>substituteFragments\<close> assigns a captured variable and
  the callback of \<^verbatim>\<open>substituteVariables\<close> may throw, so the callback is a function on a
  state that returns an error or the replacement and the new state. Its second
  argument is the first captured group; for a pattern with no group the host passes the
  offset of the match in that place, and the property lookup turns it into its decimal
  text. After an empty match the host copies one character and goes on behind it.
\<close>

function show_nat :: "nat \<Rightarrow> string" where
  "show_nat n =
     (if n < 10 then [''0123456789'' ! n]
      else show_nat (n div 10) @ [''0123456789'' ! (n mod 10)])"
  by pat_completeness auto
termination
  by (relation "measure id") auto

declare show_nat.simps [simp del]

function replace_all ::
  "tok list \<Rightarrow> (string \<Rightarrow> string \<Rightarrow> 's \<Rightarrow> error + string \<times> 's) \<Rightarrow> nat \<Rightarrow> string \<Rightarrow> 's
     \<Rightarrow> error + string \<times> 's" where
  "replace_all p f off s st =
     (case matchp p s of
        None \<Rightarrow>
          (case s of
             [] \<Rightarrow> Inr ([], st)
           | c # cs \<Rightarrow>
               (case replace_all p f (Suc off) cs st of
                  Inl e \<Rightarrow> Inl e
                | Inr (out, st') \<Rightarrow> Inr (c # out, st')))
      | Some (caps, rest) \<Rightarrow>
          (let n = length s - length rest;
               name = (case caps of [] \<Rightarrow> show_nat off | c # _ \<Rightarrow> c)
           in case f (take n s) name st of
                Inl e \<Rightarrow> Inl e
              | Inr (r, st') \<Rightarrow>
                  if 0 < n
                  then (case replace_all p f (off + n) (drop n s) st' of
                          Inl e \<Rightarrow> Inl e
                        | Inr (out, st'') \<Rightarrow> Inr (r @ out, st''))
                  else (case s of
                          [] \<Rightarrow> Inr (r, st')
                        | c # cs \<Rightarrow>
                            (case replace_all p f (Suc off) cs st' of
                               Inl e \<Rightarrow> Inl e
                             | Inr (out, st'') \<Rightarrow> Inr (r @ c # out, st'')))))"
  by pat_completeness auto
termination
  by (relation "measure (\<lambda>(p, f, off, s, st). length s)") auto

declare replace_all.simps [simp del]

subsection \<open>Fragments, then variables\<close>

definition maxDepth :: nat where
  "maxDepth = 10"

text \<open>
  The callback of the fragment phase: when \<^verbatim>\<open>fragments[name]\<close> is not \<^verbatim>\<open>undefined\<close> the match
  is replaced by it and \<^verbatim>\<open>hasMore\<close> is set; any other match is left as it is. The host
  turns what the callback returns into a string, so a member inherited from
  \<^verbatim>\<open>Object.prototype\<close> is replaced by \<^verbatim>\<open>String\<close> of it; \<^verbatim>\<open>String(value)\<close> is the host's and
  is the parameter \<open>S\<close>.
\<close>

definition fragment_callback ::
  "(jsvalue \<Rightarrow> string) \<Rightarrow> (string \<rightharpoonup> string) \<Rightarrow> string \<Rightarrow> string \<Rightarrow> bool
     \<Rightarrow> error + string \<times> bool" where
  "fragment_callback S fragments m name hasMore =
     (case get_property fragments name of
        Own t \<Rightarrow> Inr (t, True)
      | Inherited member \<Rightarrow> Inr (S (inherited_value member), True)
      | Undefined \<Rightarrow> Inr (m, hasMore))"

text \<open>
  The loop \<^verbatim>\<open>while (hasMore && depth < maxDepth)\<close> on the state
  \<open>(result, depth, hasMore)\<close>; it returns the state in which it stops.
\<close>

function fragment_loop ::
  "(jsvalue \<Rightarrow> string) \<Rightarrow> tok list \<Rightarrow> (string \<rightharpoonup> string) \<Rightarrow> string \<Rightarrow> nat \<Rightarrow> bool
     \<Rightarrow> error + string \<times> nat \<times> bool" where
  "fragment_loop S p fragments result depth hasMore =
     (if hasMore \<and> depth < maxDepth
      then (case replace_all p (fragment_callback S fragments) 0 result False of
              Inl e \<Rightarrow> Inl e
            | Inr (result', hasMore') \<Rightarrow> fragment_loop S p fragments result' (depth + 1) hasMore')
      else Inr (result, depth, hasMore))"
  by pat_completeness auto
termination
  by (relation "measure (\<lambda>(S, p, fragments, result, depth, hasMore). maxDepth - depth)") auto

declare fragment_loop.simps [simp del]

definition substituteFragments ::
  "(jsvalue \<Rightarrow> string) \<Rightarrow> string \<Rightarrow> string \<Rightarrow> (string \<rightharpoonup> string) \<Rightarrow> error + string" where
  "substituteFragments S syntax template fragments =
     (case fragment_loop S (getSyntaxPattern syntax) fragments template 0 True of
        Inl e \<Rightarrow> Inl e
      | Inr (result, depth, hasMore) \<Rightarrow>
          if depth \<ge> maxDepth
          then Inl (TemplateError
                 ''Maximum fragment substitution depth exceeded (possible circular reference)'')
          else Inr result)"

text \<open>
  \<^verbatim>\<open>valueToString\<close>. \<^verbatim>\<open>JSON.stringify(value)\<close> is the host's too and is the parameter \<open>J\<close>.
\<close>

fun valueToString :: "(jsvalue \<Rightarrow> string) \<Rightarrow> (jsvalue \<Rightarrow> string) \<Rightarrow> jsvalue \<Rightarrow> string" where
  "valueToString S J (JStr s) = s"
| "valueToString S J (JNum x) = S (JNum x)"
| "valueToString S J (JBool b) = S (JBool b)"
| "valueToString S J (JObj kvs) = J (JObj kvs)"
| "valueToString S J (JArr vs) = J (JArr vs)"
| "valueToString S J (JStringObject s) = J (JStringObject s)"
| "valueToString S J JNull = S JNull"
| "valueToString S J JUndefined = S JUndefined"
| "valueToString S J (JFun f) = S (JFun f)"

definition variable_callback ::
  "(jsvalue \<Rightarrow> string) \<Rightarrow> (jsvalue \<Rightarrow> string) \<Rightarrow> (string \<rightharpoonup> jsvalue) \<Rightarrow> bool
     \<Rightarrow> string \<Rightarrow> string \<Rightarrow> unit \<Rightarrow> error + string \<times> unit" where
  "variable_callback S J variables allowUndefined m name u =
     (let v = get_value variables name in
      if is_undefined v then
        (if allowUndefined then Inr (m, ())
         else Inl (TemplateError
                (''Variable '' @ [CHR 0x27] @ name @ [CHR 0x27] @ '' is not defined'')))
      else Inr (valueToString S J v, ()))"

definition substituteVariables ::
  "(jsvalue \<Rightarrow> string) \<Rightarrow> (jsvalue \<Rightarrow> string) \<Rightarrow> string \<Rightarrow> string \<Rightarrow> (string \<rightharpoonup> jsvalue)
     \<Rightarrow> bool \<Rightarrow> error + string" where
  "substituteVariables S J syntax template variables allowUndefined =
     (case replace_all (getSyntaxPattern syntax)
             (variable_callback S J variables allowUndefined) 0 template () of
        Inl e \<Rightarrow> Inl e
      | Inr (out, _) \<Rightarrow> Inr out)"

text \<open>
  \<^verbatim>\<open>render(template, {variables = {}, fragments = {}, allowUndefined = false})\<close> of an
  engine whose configured syntax is \<open>syntax\<close>.
\<close>

definition render ::
  "(jsvalue \<Rightarrow> string) \<Rightarrow> (jsvalue \<Rightarrow> string) \<Rightarrow> string \<Rightarrow> string \<Rightarrow> (string \<rightharpoonup> jsvalue)
     \<Rightarrow> (string \<rightharpoonup> string) \<Rightarrow> bool \<Rightarrow> error + string" where
  "render S J syntax template variables fragments allowUndefined =
     (case substituteFragments S syntax template fragments of
        Inl e \<Rightarrow> Inl e
      | Inr result \<Rightarrow> substituteVariables S J syntax result variables allowUndefined)"

subsection \<open>Validating variables\<close>

record VariableValidation =
  v_pattern :: "string option"
  v_min_length :: "real option"
  v_max_length :: "real option"
  v_minimum :: "real option"
  v_maximum :: "real option"
  v_enum :: "jsvalue list option"

record Variable =
  var_name :: string
  var_type :: string
  var_required :: bool
  var_default :: "jsvalue option"
  var_validation :: "VariableValidation option"

text \<open>Statements in sequence, the first of which may throw.\<close>

definition and_then :: "error + unit \<Rightarrow> error + unit \<Rightarrow> error + unit" where
  "and_then a b = (case a of Inl e \<Rightarrow> Inl e | Inr _ \<Rightarrow> b)"











section \<open>Validators (validators.ts)\<close>

text \<open>
  A validator of a prompt specification. The parameter bag is a record of the
  properties that the built-in validators read, each with the type that the source
  casts it to.
\<close>

record Params =
  words :: "string list option"
  max_characters :: "real option"
  max_tokens :: "real option"
  min_characters :: "real option"
  min_tokens :: "real option"
  pattern :: "string option"
  must_match :: "bool option"

record Validator =
  vtype :: string
  enabled :: bool
  fail_on_violation :: "bool option"
  params :: "Params option"

record ValidationResult =
  passed :: bool
  validatorType :: string
  message :: "guardrail_msg option"
  details :: "details option"

definition OOTB_VALIDATORS :: "string list" where
  "OOTB_VALIDATORS = [''banned_words'', ''max_length'', ''min_length'', ''regex_match'']"

definition isOOTBValidator :: "string \<Rightarrow> bool" where
  "isOOTBValidator type \<longleftrightarrow> type \<in> set OOTB_VALIDATORS"

text \<open>\<^verbatim>\<open>validator.params?.key\<close>.\<close>

definition param :: "(Params \<Rightarrow> 'a option) \<Rightarrow> Validator \<Rightarrow> 'a option" where
  "param key validator = (case params validator of None \<Rightarrow> None | Some ps \<Rightarrow> key ps)"

text \<open>\<^verbatim>\<open>result.message || 'Validation failed'\<close>: an absent or empty message is falsy.\<close>

definition message_or_default :: "guardrail_msg option \<Rightarrow> guardrail_msg" where
  "message_or_default msg =
     (case msg of
        None \<Rightarrow> ValidationFailed
      | Some (Text []) \<Rightarrow> ValidationFailed
      | Some t \<Rightarrow> t)"

definition passing :: "string \<Rightarrow> ValidationResult" where
  "passing type = \<lparr>passed = True, validatorType = type, message = None, details = None\<rparr>"

definition failing :: "string \<Rightarrow> guardrail_msg \<Rightarrow> details \<Rightarrow> ValidationResult" where
  "failing type msg ds =
     \<lparr>passed = False, validatorType = type, message = Some msg, details = Some ds\<rparr>"

text \<open>
  \<^verbatim>\<open>validateBannedWords\<close>. The loop compiles \<^verbatim>\<open>new RegExp(`\\b${word}\\b`, 'i')\<close> for each
  word, the word taken as it is, and tests the response.
\<close>

definition word_boundary :: string where
  "word_boundary = [CHR 0x5C, CHR ''b'']"

fun banned_words_loop ::
  "regex_engine \<Rightarrow> string \<Rightarrow> string list \<Rightarrow> string list \<Rightarrow> error + string list" where
  "banned_words_loop E response [] foundWords = Inr foundWords"
| "banned_words_loop E response (word # rest) foundWords =
     (case E (word_boundary @ word @ word_boundary) True response of
        Inl msg \<Rightarrow> Inl (SyntaxError msg)
      | Inr found \<Rightarrow>
          banned_words_loop E response rest (if found then foundWords @ [word] else foundWords))"

definition validateBannedWords ::
  "regex_engine \<Rightarrow> string \<Rightarrow> Validator \<Rightarrow> error + ValidationResult" where
  "validateBannedWords E response validator =
     (case banned_words_loop E response
             (case param words validator of None \<Rightarrow> [] | Some ws \<Rightarrow> ws) [] of
        Inl e \<Rightarrow> Inl e
      | Inr foundWords \<Rightarrow>
          if length foundWords > 0
          then Inr (failing ''banned_words'' (ContainsBanned foundWords)
                 [(''banned_words'', JArr (map JStr foundWords))])
          else Inr (passing ''banned_words''))"

text \<open>\<^verbatim>\<open>Math.ceil(response.length / 4)\<close>.\<close>

definition estimatedTokens :: "string \<Rightarrow> int" where
  "estimatedTokens response = \<lceil>real (length response) / 4\<rceil>"

definition validateMaxLength :: "string \<Rightarrow> Validator \<Rightarrow> ValidationResult" where
  "validateMaxLength response validator =
     (let maxChars = param max_characters validator;
          maxTokens = param max_tokens validator
      in if maxChars \<noteq> None \<and> real (length response) > the maxChars
         then failing ''max_length'' (ExceedsChars (length response) (the maxChars))
                [(''length'', JNum (real (length response))),
                 (''max_characters'', JNum (the maxChars))]
         else if maxTokens \<noteq> None \<and> real_of_int (estimatedTokens response) > the maxTokens
         then failing ''max_length'' (ExceedsTokens (estimatedTokens response) (the maxTokens))
                [(''estimated_tokens'', JNum (real_of_int (estimatedTokens response))),
                 (''max_tokens'', JNum (the maxTokens))]
         else passing ''max_length'')"

definition validateMinLength :: "string \<Rightarrow> Validator \<Rightarrow> ValidationResult" where
  "validateMinLength response validator =
     (let minChars = param min_characters validator;
          minTokens = param min_tokens validator
      in if minChars \<noteq> None \<and> real (length response) < the minChars
         then failing ''min_length'' (BelowChars (length response) (the minChars))
                [(''length'', JNum (real (length response))),
                 (''min_characters'', JNum (the minChars))]
         else if minTokens \<noteq> None \<and> real_of_int (estimatedTokens response) < the minTokens
         then failing ''min_length'' (BelowTokens (estimatedTokens response) (the minTokens))
                [(''estimated_tokens'', JNum (real_of_int (estimatedTokens response))),
                 (''min_tokens'', JNum (the minTokens))]
         else passing ''min_length'')"

text \<open>
  \<^verbatim>\<open>validateRegexMatch\<close>: the only place that catches what \<^verbatim>\<open>new RegExp\<close> throws;
  \<^verbatim>\<open>String(error)\<close> of a SyntaxError is its name, a colon and its text.
\<close>

definition validateRegexMatch :: "regex_engine \<Rightarrow> string \<Rightarrow> Validator \<Rightarrow> ValidationResult" where
  "validateRegexMatch E response validator =
     (let pat = param pattern validator;
          mustMatch = (param must_match validator \<noteq> Some False)
      in if pat = None \<or> pat = Some []
         then \<lparr>passed = True, validatorType = ''regex_match'', message = Some NoPattern,
                details = None\<rparr>
         else (case E (the pat) False response of
                 Inl msg \<Rightarrow>
                   failing ''regex_match'' (InvalidRegex (the pat))
                     [(''error'', JStr (''SyntaxError: '' @ msg))]
               | Inr matches \<Rightarrow>
                   if mustMatch \<and> \<not> matches
                   then failing ''regex_match'' (NotMatching (the pat))
                          [(''pattern'', JStr (the pat))]
                   else if \<not> mustMatch \<and> matches
                   then failing ''regex_match'' (MatchesForbidden (the pat))
                          [(''pattern'', JStr (the pat))]
                   else passing ''regex_match''))"

definition runValidator :: "regex_engine \<Rightarrow> string \<Rightarrow> Validator \<Rightarrow> error + ValidationResult" where
  "runValidator E response validator =
     (if vtype validator = ''banned_words'' then validateBannedWords E response validator
      else if vtype validator = ''max_length'' then Inr (validateMaxLength response validator)
      else if vtype validator = ''min_length'' then Inr (validateMinLength response validator)
      else if vtype validator = ''regex_match'' then Inr (validateRegexMatch E response validator)
      else Inr \<lparr>passed = True, validatorType = vtype validator,
                 message = Some (UnknownType (vtype validator)), details = None\<rparr>)"

text \<open>
  \<^verbatim>\<open>validateResponse\<close>: the loop over the validators, which pushes each result and throws
  at a failing result of a validator with \<^verbatim>\<open>fail_on_violation\<close>.
\<close>

fun validateResponse ::
  "regex_engine \<Rightarrow> string \<Rightarrow> Validator list \<Rightarrow> error + ValidationResult list" where
  "validateResponse E response [] = Inr []"
| "validateResponse E response (validator # rest) =
     (if \<not> enabled validator then validateResponse E response rest
      else (case runValidator E response validator of
              Inl e \<Rightarrow> Inl e
            | Inr result \<Rightarrow>
                if \<not> passed result \<and> fail_on_violation validator = Some True
                then Inl (GuardrailViolationError (message_or_default (message result))
                       (vtype validator) (details result))
                else (case validateResponse E response rest of
                        Inl e \<Rightarrow> Inl e
                      | Inr results \<Rightarrow> Inr (result # results))))"

text \<open>
  \<^verbatim>\<open>allValidatorsPassed\<close> and \<^verbatim>\<open>getFailedValidators\<close>. The list that the validation runnable
  gives them can hold, besides results, a value that is not a result (what a member
  inherited from \<^verbatim>\<open>Object.prototype\<close> returned, see \<^verbatim>\<open>runValidation\<close> below): a string, a
  boolean or a string object. Such a value has no property \<^verbatim>\<open>passed\<close>, so \<^verbatim>\<open>r.passed\<close> is
  \<^verbatim>\<open>undefined\<close>, which counts as false.
\<close>

datatype outcome = Outcome ValidationResult | NotAResult jsvalue

fun outcome_passed :: "outcome \<Rightarrow> bool" where
  "outcome_passed (Outcome r) = passed r"
| "outcome_passed (NotAResult x) = False"

definition allValidatorsPassed :: "outcome list \<Rightarrow> bool" where
  "allValidatorsPassed results = list_all outcome_passed results"

definition getFailedValidators :: "outcome list \<Rightarrow> outcome list" where
  "getFailedValidators results = filter (\<lambda>r. \<not> outcome_passed r) results"

section \<open>The validation runnable (validation-runnable.ts)\<close>

type_synonym CustomValidatorFn = "string \<Rightarrow> Validator \<Rightarrow> ValidationResult"

record ValidationRunnableOptions =
  opt_validators :: "Validator list"
  opt_customValidators :: "(string \<rightharpoonup> CustomValidatorFn) option"
  opt_throwOnFailure :: "bool option"
  opt_validationKey :: "string option"

record ValidationRunnable =
  validators :: "Validator list"
  customValidators :: "string \<rightharpoonup> CustomValidatorFn"
  throwOnFailure :: bool
  validationKey :: string

record Validation =
  all_passed :: bool
  all_results :: "outcome list"
  failed_results :: "outcome list"

record ValidatedOutput =
  out_content :: jsvalue
  out_validation :: Validation

text \<open>\<^verbatim>\<open>missingValidators.join(', ')\<close>.\<close>

fun join :: "string \<Rightarrow> string list \<Rightarrow> string" where
  "join sep [] = []"
| "join sep [x] = x"
| "join sep (x # y # ys) = x @ sep @ join sep (y # ys)"

text \<open>
  The loop of \<^verbatim>\<open>validateValidatorImplementations\<close>, which collects the missing types. In
  \<^verbatim>\<open>!this.customValidators[validator.type]\<close> the lookup yields a function (registered or
  inherited), the object \<^verbatim>\<open>Object.prototype\<close> (under \<^verbatim>\<open>__proto__\<close>) or \<^verbatim>\<open>undefined\<close>, and only
  \<^verbatim>\<open>undefined\<close> is falsy.
\<close>

definition lookup_truthy :: "(string \<rightharpoonup> CustomValidatorFn) \<Rightarrow> string \<Rightarrow> bool" where
  "lookup_truthy customs type =
     (case get_property customs type of
        Own customValidator \<Rightarrow> True
      | Inherited member \<Rightarrow> True
      | Undefined \<Rightarrow> False)"

fun missingValidators :: "(string \<rightharpoonup> CustomValidatorFn) \<Rightarrow> Validator list \<Rightarrow> string list" where
  "missingValidators customs [] = []"
| "missingValidators customs (validator # rest) =
     (if \<not> enabled validator then missingValidators customs rest
      else if isOOTBValidator (vtype validator) then missingValidators customs rest
      else if \<not> lookup_truthy customs (vtype validator)
      then vtype validator # missingValidators customs rest
      else missingValidators customs rest)"

definition missing_message :: "string list \<Rightarrow> string" where
  "missing_message missing =
     ''Missing validator implementations: '' @ join '', '' missing @ ''. '' @
     ''These validators are required by the PromptPack but no implementation was provided.''"

definition validateValidatorImplementations :: "ValidationRunnable \<Rightarrow> error + unit" where
  "validateValidatorImplementations this =
     (let missing = missingValidators (customValidators this) (validators this)
      in if length missing > 0 then Inl (Error (missing_message missing)) else Inr ())"

text \<open>The constructor.\<close>

definition new_ValidationRunnable :: "ValidationRunnableOptions \<Rightarrow> error + ValidationRunnable" where
  "new_ValidationRunnable options =
     (let this = \<lparr>validators = opt_validators options,
                  customValidators =
                    (case opt_customValidators options of None \<Rightarrow> Map.empty | Some c \<Rightarrow> c),
                  throwOnFailure =
                    (case opt_throwOnFailure options of None \<Rightarrow> False | Some b \<Rightarrow> b),
                  validationKey =
                    (case opt_validationKey options of None \<Rightarrow> ''_validation'' | Some k \<Rightarrow> k)\<rparr>
      in case validateValidatorImplementations this of
           Inl e \<Rightarrow> Inl e
         | Inr _ \<Rightarrow> Inr this)"

text \<open>
  \<^verbatim>\<open>extractContent\<close>. An input that \<open>jsvalue\<close> models has no cycle, so
  \<^verbatim>\<open>JSON.stringify\<close> does not throw on it.
\<close>

definition extractContent :: "(jsvalue \<Rightarrow> string) \<Rightarrow> (jsvalue \<Rightarrow> string) \<Rightarrow> jsvalue \<Rightarrow> string" where
  "extractContent S J input =
     (case input of
        JStr s \<Rightarrow> s
      | JObj kvs \<Rightarrow>
          (case map_of kvs ''content'' of
             Some c \<Rightarrow> S c
           | None \<Rightarrow>
               (case map_of kvs ''text'' of
                  Some t \<Rightarrow> S t
                | None \<Rightarrow> J input))
      | JArr vs \<Rightarrow> J input
      | JStringObject s \<Rightarrow> J input
      | _ \<Rightarrow> S input)"

text \<open>
  What a member inherited from \<^verbatim>\<open>Object.prototype\<close> does when \<^verbatim>\<open>runValidation\<close> calls it as
  \<^verbatim>\<open>customValidator(content, validator)\<close>, a plain call, in which \<^verbatim>\<open>this\<close> is \<^verbatim>\<open>undefined\<close>:
  \<^verbatim>\<open>constructor\<close> is \<^verbatim>\<open>Object\<close> and wraps the string, \<^verbatim>\<open>isPrototypeOf\<close> answers \<^verbatim>\<open>false\<close> for an
  argument that is not an object, \<^verbatim>\<open>toString\<close> names the class of \<^verbatim>\<open>undefined\<close>, the value
  under \<^verbatim>\<open>__proto__\<close> is no function, so that calling it throws, and every other member
  first converts \<^verbatim>\<open>this\<close> to an object, which throws.
\<close>

definition call_inherited :: "string \<Rightarrow> string \<Rightarrow> error + jsvalue" where
  "call_inherited member content =
     (if member = ''constructor'' then Inr (JStringObject content)
      else if member = ''isPrototypeOf'' then Inr (JBool False)
      else if member = ''toString'' then Inr (JStr ''[object Undefined]'')
      else Inl (TypeError member))"

text \<open>
  \<^verbatim>\<open>runValidation\<close>: when \<^verbatim>\<open>this.customValidators[validator.type]\<close> is truthy it is called,
  and what it returns is pushed; otherwise the result is
  \<^verbatim>\<open>validateResponse(content, [validator])[0]\<close>.
\<close>

fun runValidation ::
  "regex_engine \<Rightarrow> ValidationRunnable \<Rightarrow> Validator list \<Rightarrow> string
     \<Rightarrow> error + outcome list" where
  "runValidation E this [] content = Inr []"
| "runValidation E this (validator # rest) content =
     (if \<not> enabled validator then runValidation E this rest content
      else (case (case get_property (customValidators this) (vtype validator) of
                    Own customValidator \<Rightarrow> Inr (Outcome (customValidator content validator))
                  | Inherited member \<Rightarrow>
                      (case call_inherited member content of
                         Inl e \<Rightarrow> Inl e
                       | Inr x \<Rightarrow> Inr (NotAResult x))
                  | Undefined \<Rightarrow>
                      (case validateResponse E content [validator] of
                         Inl e \<Rightarrow> Inl e
                       | Inr [] \<Rightarrow> Inr (NotAResult JUndefined)
                       | Inr (r # _) \<Rightarrow> Inr (Outcome r))) of
              Inl e \<Rightarrow> Inl e
            | Inr result \<Rightarrow>
                (case runValidation E this rest content of
                   Inl e \<Rightarrow> Inl e
                 | Inr results \<Rightarrow> Inr (result # results))))"

text \<open>
  \<^verbatim>\<open>this.validators.find(v => v.type === r.validatorType)?.fail_on_violation\<close>: the
  flag of the first declared validator whose type is the type that the result names.
  A value that is not a result names no type, so no validator is found for it.
\<close>

definition is_critical :: "Validator list \<Rightarrow> ValidationResult \<Rightarrow> bool" where
  "is_critical vs r \<longleftrightarrow>
     (case find (\<lambda>v. vtype v = validatorType r) vs of
        None \<Rightarrow> False
      | Some v \<Rightarrow> fail_on_violation v = Some True)"

fun criticalFailures :: "Validator list \<Rightarrow> outcome list \<Rightarrow> ValidationResult list" where
  "criticalFailures vs [] = []"
| "criticalFailures vs (Outcome r # failed) =
     (if is_critical vs r then r # criticalFailures vs failed else criticalFailures vs failed)"
| "criticalFailures vs (NotAResult x # failed) = criticalFailures vs failed"

definition invoke ::
  "(jsvalue \<Rightarrow> string) \<Rightarrow> (jsvalue \<Rightarrow> string) \<Rightarrow> regex_engine \<Rightarrow> ValidationRunnable \<Rightarrow> jsvalue
     \<Rightarrow> error + ValidatedOutput" where
  "invoke S J E this input =
     (let text = extractContent S J input in
      case runValidation E this (validators this) text of
        Inl e \<Rightarrow> Inl e
      | Inr rs \<Rightarrow>
          (let ok = allValidatorsPassed rs;
               bad = getFailedValidators rs;
               output = \<lparr>out_content = input,
                         out_validation =
                           \<lparr>all_passed = ok, all_results = rs, failed_results = bad\<rparr>\<rparr>
           in if \<not> ok \<and> throwOnFailure this
              then (case criticalFailures (validators this) bad of
                      first # _ \<Rightarrow>
                        Inl (GuardrailViolationError (message_or_default (message first))
                               (validatorType first) (details first))
                    | [] \<Rightarrow> Inr output)
              else Inr output))"

section \<open>An engine for plain patterns\<close>

text \<open>
  For the evaluation of examples: the behaviour of the host's \<^verbatim>\<open>RegExp\<close> on patterns
  made of ordinary characters, the wildcard \<^verbatim>\<open>.\<close> and the assertion \<^verbatim>\<open>\b\<close>, on ASCII
  text. \<^verbatim>\<open>test\<close> looks for a match that starts anywhere in the subject. A word
  character is one of \<^verbatim>\<open>[A-Za-z0-9_]\<close>; with the flag \<^verbatim>\<open>i\<close> letters are compared in upper
  case. A pattern in which an ordinary character or the wildcard is followed by \<^verbatim>\<open>++\<close>
  is one that the host rejects, with the message \<^verbatim>\<open>Nothing to repeat\<close>: the second \<^verbatim>\<open>+\<close>
  has nothing to apply to. The engine reports every other pattern as unsupported (the
  host accepts many of them); no example below gives it one.
\<close>

datatype atom = AChar char | AAny | AWordBoundary

datatype parsed = Atoms "atom list" | Invalid string | Unsupported

definition cons_atom :: "atom \<Rightarrow> parsed \<Rightarrow> parsed" where
  "cons_atom a r =
     (case r of
        Atoms as \<Rightarrow> Atoms (a # as)
      | Invalid msg \<Rightarrow> Invalid msg
      | Unsupported \<Rightarrow> Unsupported)"

definition upper_case :: "char \<Rightarrow> char" where
  "upper_case c =
     (case map_of (zip ''abcdefghijklmnopqrstuvwxyz'' ''ABCDEFGHIJKLMNOPQRSTUVWXYZ'') c of
        Some d \<Rightarrow> d | None \<Rightarrow> c)"

definition metachars :: string where
  "metachars = [CHR 0x5C] @ ''^$.*+?()[]{}|''"

fun parse_atoms :: "string \<Rightarrow> parsed" where
  "parse_atoms [] = Atoms []"
| "parse_atoms [c] =
     (if c = CHR ''.'' then Atoms [AAny]
      else if c \<in> set metachars then Unsupported
      else Atoms [AChar c])"
| "parse_atoms (c # d # cs) =
     (if c = CHR 0x5C \<and> d = CHR ''b'' then cons_atom AWordBoundary (parse_atoms cs)
      else if c \<noteq> CHR ''.'' \<and> c \<in> set metachars then Unsupported
      else if d = CHR ''+'' \<and> take 1 cs = ''+'' then Invalid ''Nothing to repeat''
      else if c = CHR ''.'' then cons_atom AAny (parse_atoms (d # cs))
      else cons_atom (AChar c) (parse_atoms (d # cs)))"

definition is_word :: "char option \<Rightarrow> bool" where
  "is_word c = (case c of None \<Rightarrow> False | Some d \<Rightarrow> ident_char d)"

fun match_atoms :: "bool \<Rightarrow> atom list \<Rightarrow> char option \<Rightarrow> string \<Rightarrow> bool" where
  "match_atoms i [] prev s = True"
| "match_atoms i (AChar c # as) prev s =
     (case s of
        [] \<Rightarrow> False
      | d # r \<Rightarrow> (if i then upper_case d = upper_case c else d = c) \<and> match_atoms i as (Some d) r)"
| "match_atoms i (AAny # as) prev s =
     (case s of
        [] \<Rightarrow> False
      | d # r \<Rightarrow> d \<noteq> CHR 0x0A \<and> d \<noteq> CHR 0x0D \<and> match_atoms i as (Some d) r)"
| "match_atoms i (AWordBoundary # as) prev s =
     (is_word prev \<noteq> is_word (case s of [] \<Rightarrow> None | d # _ \<Rightarrow> Some d) \<and> match_atoms i as prev s)"

fun search_atoms :: "bool \<Rightarrow> atom list \<Rightarrow> char option \<Rightarrow> string \<Rightarrow> bool" where
  "search_atoms i as prev [] = match_atoms i as prev []"
| "search_atoms i as prev (c # cs) =
     (match_atoms i as prev (c # cs) \<or> search_atoms i as (Some c) cs)"

definition plain_regex :: regex_engine where
  "plain_regex pat i subject =
     (case parse_atoms pat of
        Atoms as \<Rightarrow> Inr (search_atoms i as None subject)
      | Invalid msg \<Rightarrow> Inl msg
      | Unsupported \<Rightarrow> Inl ''unsupported pattern'')"

text \<open>
  And the host's \<^verbatim>\<open>String(value)\<close> on the values that the examples convert: text, the
  values \<^verbatim>\<open>undefined\<close>, \<^verbatim>\<open>null\<close>, \<^verbatim>\<open>true\<close> and \<^verbatim>\<open>false\<close>, an object that is not an array, and
  a function of the host, whose text names the function (\<^verbatim>\<open>Object\<close> is the function
  under \<^verbatim>\<open>constructor\<close>). No example converts a number or an array, for which this
  function gives the empty text.
\<close>

definition plain_String :: "jsvalue \<Rightarrow> string" where
  "plain_String v =
     (case v of
        JUndefined \<Rightarrow> ''undefined''
      | JNull \<Rightarrow> ''null''
      | JBool b \<Rightarrow> if b then ''true'' else ''false''
      | JStr s \<Rightarrow> s
      | JStringObject s \<Rightarrow> s
      | JObj kvs \<Rightarrow> ''[object Object]''
      | JFun name \<Rightarrow>
          ''function '' @ (if name = ''constructor'' then ''Object'' else name) @
          ''() { [native code] }''
      | JNum x \<Rightarrow> []
      | JArr vs \<Rightarrow> [])"

section \<open>Notions used to state the properties\<close>

text \<open>A parameter bag with no property, from which the examples build theirs.\<close>

definition no_params :: Params where
  "no_params = \<lparr>words = None, max_characters = None, max_tokens = None,
     min_characters = None, min_tokens = None, pattern = None, must_match = None\<rparr>"

text \<open>The result of \<^verbatim>\<open>runValidator\<close> on a validator whose type is not built in.\<close>

definition unknown_outcome :: "Validator \<Rightarrow> ValidationResult" where
  "unknown_outcome v =
     \<lparr>passed = True, validatorType = vtype v, message = Some (UnknownType (vtype v)),
      details = None\<rparr>"

text \<open>Validators as the examples declare them: a type, a flag and one parameter.\<close>

definition max_length_validator :: "real \<Rightarrow> bool option \<Rightarrow> Validator" where
  "max_length_validator n flag =
     \<lparr>vtype = ''max_length'', enabled = True, fail_on_violation = flag,
      params = Some (no_params\<lparr>max_characters := Some n\<rparr>)\<rparr>"

definition min_length_validator :: "real \<Rightarrow> bool option \<Rightarrow> Validator" where
  "min_length_validator n flag =
     \<lparr>vtype = ''min_length'', enabled = True, fail_on_violation = flag,
      params = Some (no_params\<lparr>min_characters := Some n\<rparr>)\<rparr>"

definition banned_words_validator :: "string list \<Rightarrow> bool option \<Rightarrow> Validator" where
  "banned_words_validator ws flag =
     \<lparr>vtype = ''banned_words'', enabled = True, fail_on_violation = flag,
      params = Some (no_params\<lparr>words := Some ws\<rparr>)\<rparr>"

definition plain_validator :: "string \<Rightarrow> bool option \<Rightarrow> Validator" where
  "plain_validator type flag =
     \<lparr>vtype = type, enabled = True, fail_on_violation = flag, params = None\<rparr>"

subsection \<open>Notions used to state the properties of the validation of variables\<close>







text \<open>Raising for the first message of a list, if there is one.\<close>

definition raise_first :: "validation_msg list \<Rightarrow> error + unit" where
  "raise_first msgs = (case msgs of [] \<Rightarrow> Inr () | m # _ \<Rightarrow> Inl (ValidationError m))"





subsection \<open>Notions used to state the properties of the fragment phase\<close>

text \<open>
  One pass of the loop of \<^verbatim>\<open>substituteFragments\<close> over a text: the text it produces
  and the value it leaves in \<^verbatim>\<open>hasMore\<close>. \<open>text_after S p fragments s n\<close> is the text after
  \<open>n\<close> passes over \<open>s\<close>, and \<open>replaces S p fragments s n\<close> says that pass number \<open>n + 1\<close>
  replaces a placeholder. \<open>has_placeholder p s\<close> says that the pattern matches somewhere
  in \<open>s\<close>.
\<close>

definition fragment_pass ::
  "(jsvalue \<Rightarrow> string) \<Rightarrow> tok list \<Rightarrow> (string \<rightharpoonup> string) \<Rightarrow> string \<Rightarrow> string \<times> bool" where
  "fragment_pass S p fragments s =
     (case replace_all p (fragment_callback S fragments) 0 s False of
        Inr r \<Rightarrow> r
      | Inl e \<Rightarrow> (s, False))"

primrec text_after ::
  "(jsvalue \<Rightarrow> string) \<Rightarrow> tok list \<Rightarrow> (string \<rightharpoonup> string) \<Rightarrow> string \<Rightarrow> nat \<Rightarrow> string" where
  "text_after S p fragments s 0 = s"
| "text_after S p fragments s (Suc n) =
     fst (fragment_pass S p fragments (text_after S p fragments s n))"

definition replaces ::
  "(jsvalue \<Rightarrow> string) \<Rightarrow> tok list \<Rightarrow> (string \<rightharpoonup> string) \<Rightarrow> string \<Rightarrow> nat \<Rightarrow> bool" where
  "replaces S p fragments s n =
     snd (fragment_pass S p fragments (text_after S p fragments s n))"

fun has_placeholder :: "tok list \<Rightarrow> string \<Rightarrow> bool" where
  "has_placeholder p [] = (matchp p [] \<noteq> None)"
| "has_placeholder p (c # cs) = (matchp p (c # cs) \<noteq> None \<or> has_placeholder p cs)"

text \<open>
  A syntax is fenced by \<open>opening\<close> and \<open>closing\<close> when it puts the one word \<^verbatim>\<open>variable\<close>
  between these two texts, neither of them empty, and a placeholder can be told from
  what surrounds it: no character of \<open>opening\<close> and not the first character of \<open>closing\<close>
  can be part of a name, and \<open>closing\<close> does not contain the first character of
  \<open>opening\<close>. The default syntax \<^verbatim>\<open>{{variable}}\<close> is fenced by \<^verbatim>\<open>{{\<close> and \<^verbatim>\<open>}}\<close>. For such a
  syntax: the placeholder of a name, the names that the pattern captures, and a text
  that contains the placeholder of a name. \<open>self_including opening closing fragments C\<close>
  says that every name of \<open>C\<close> is a fragment whose text contains the placeholder of a
  name of \<open>C\<close>: following the inclusions from a name of \<open>C\<close> never ends, so it runs into
  a fragment that includes itself, directly or through others (the names on a cycle of
  inclusions are such a set).
\<close>

definition fenced :: "string \<Rightarrow> string \<Rightarrow> string \<Rightarrow> bool" where
  "fenced syntax opening closing \<longleftrightarrow>
     getSyntaxPattern syntax = map Lit opening @ Ident # map Lit closing \<and>
     opening \<noteq> [] \<and> list_all (\<lambda>c. \<not> ident_char c) opening \<and>
     closing \<noteq> [] \<and> \<not> ident_char (hd closing) \<and> hd opening \<notin> set closing"

definition placeholder :: "string \<Rightarrow> string \<Rightarrow> string \<Rightarrow> string" where
  "placeholder opening closing n = opening @ n @ closing"

definition is_identifier :: "string \<Rightarrow> bool" where
  "is_identifier n \<longleftrightarrow> (case n of [] \<Rightarrow> False | c # cs \<Rightarrow> ident_start c \<and> list_all ident_char cs)"

primrec mentions :: "string \<Rightarrow> string \<Rightarrow> string \<Rightarrow> string \<Rightarrow> bool" where
  "mentions opening closing [] n = False"
| "mentions opening closing (c # cs) n =
     (take (length (placeholder opening closing n)) (c # cs) = placeholder opening closing n \<or>
      mentions opening closing cs n)"

definition self_including ::
  "string \<Rightarrow> string \<Rightarrow> (string \<rightharpoonup> string) \<Rightarrow> string set \<Rightarrow> bool" where
  "self_including opening closing fragments C \<longleftrightarrow>
     (\<forall>n\<in>C. is_identifier n \<and>
        (\<exists>t. fragments n = Some t \<and> (\<exists>m\<in>C. mentions opening closing t m)))"

text \<open>Nine fragments, each but the last nothing but the placeholder of the next.\<close>

definition nested_fragments :: "string \<rightharpoonup> string" where
  "nested_fragments =
     [''a'' \<mapsto> ''{{b}}'', ''b'' \<mapsto> ''{{c}}'', ''c'' \<mapsto> ''{{d}}'', ''d'' \<mapsto> ''{{e}}'',
      ''e'' \<mapsto> ''{{f}}'', ''f'' \<mapsto> ''{{g}}'', ''g'' \<mapsto> ''{{h}}'', ''h'' \<mapsto> ''{{i}}'',
      ''i'' \<mapsto> ''done'']"

text \<open>
  Eight fragments, each but the last nothing but the placeholder of the next, the last
  the placeholder of a name that the fragment map inherits.
\<close>

definition inherited_chain :: "string \<rightharpoonup> string" where
  "inherited_chain =
     [''a'' \<mapsto> ''{{b}}'', ''b'' \<mapsto> ''{{c}}'', ''c'' \<mapsto> ''{{d}}'', ''d'' \<mapsto> ''{{e}}'',
      ''e'' \<mapsto> ''{{f}}'', ''f'' \<mapsto> ''{{g}}'', ''g'' \<mapsto> ''{{h}}'',
      ''h'' \<mapsto> ''{{constructor}}'']"

text \<open>The error that \<^verbatim>\<open>substituteFragments\<close> throws.\<close>

definition depth_error :: error where
  "depth_error =
     TemplateError ''Maximum fragment substitution depth exceeded (possible circular reference)''"

section \<open>Properties of the template engine\<close>

lemma replace_all_no_match:
  "\<not> has_placeholder p s \<Longrightarrow> replace_all p f off s st = Inr (s, st)"
proof (induction s arbitrary: off)
  case Nil
  then have "matchp p [] = None" by (cases "matchp p []") auto
  then show ?case by (subst replace_all.simps) simp
next
  case (Cons c cs)
  then have "matchp p (c # cs) = None" and "replace_all p f (Suc off) cs st = Inr (cs, st)"
    by (cases "matchp p (c # cs)"; auto)+
  then show ?case
    by (subst replace_all.simps) simp
qed

lemma fragment_callback_total:
  "\<exists>r b. fragment_callback S fragments m name st = Inr (r, b)"
  by (cases "get_property fragments name") (auto simp: fragment_callback_def)

lemma replace_all_None_Nil:
  "matchp p [] = None \<Longrightarrow> replace_all p f off [] st = Inr ([], st)"
  by (subst replace_all.simps) simp

lemma replace_all_None_Cons:
  "matchp p (c # cs) = None \<Longrightarrow>
   replace_all p f off (c # cs) st =
     (case replace_all p f (Suc off) cs st of
        Inl e \<Rightarrow> Inl e
      | Inr (out, st') \<Rightarrow> Inr (c # out, st'))"
  by (subst replace_all.simps) simp

lemma replace_all_Some_error:
  "matchp p s = Some (caps, rest) \<Longrightarrow>
   f (take (length s - length rest) s) (case caps of [] \<Rightarrow> show_nat off | c # _ \<Rightarrow> c) st = Inl e \<Longrightarrow>
   replace_all p f off s st = Inl e"
  by (subst replace_all.simps) (simp add: Let_def)

lemma replace_all_Some_step:
  "matchp p s = Some (caps, rest) \<Longrightarrow>
   f (take (length s - length rest) s) (case caps of [] \<Rightarrow> show_nat off | c # _ \<Rightarrow> c) st = Inr (r, st') \<Longrightarrow>
   0 < length s - length rest \<Longrightarrow>
   replace_all p f off s st =
     (case replace_all p f (off + (length s - length rest)) (drop (length s - length rest) s) st' of
        Inl e \<Rightarrow> Inl e
      | Inr (out, st'') \<Rightarrow> Inr (r @ out, st''))"
  by (subst replace_all.simps) (simp add: Let_def)

lemma replace_all_Some_empty_Nil:
  "matchp p [] = Some (caps, rest) \<Longrightarrow>
   f [] (case caps of [] \<Rightarrow> show_nat off | c # _ \<Rightarrow> c) st = Inr (r, st') \<Longrightarrow>
   replace_all p f off [] st = Inr (r, st')"
  by (subst replace_all.simps) (simp add: Let_def)

lemma replace_all_Some_empty_Cons:
  "matchp p (c # cs) = Some (caps, rest) \<Longrightarrow>
   f [] (case caps of [] \<Rightarrow> show_nat off | c # _ \<Rightarrow> c) st = Inr (r, st') \<Longrightarrow>
   \<not> 0 < length (c # cs) - length rest \<Longrightarrow>
   replace_all p f off (c # cs) st =
     (case replace_all p f (Suc off) cs st' of
        Inl e \<Rightarrow> Inl e
      | Inr (out, st'') \<Rightarrow> Inr (r @ c # out, st''))"
  by (subst replace_all.simps) (simp add: Let_def)

lemma replace_all_total:
  fixes f :: "string \<Rightarrow> string \<Rightarrow> 's \<Rightarrow> error + string \<times> 's"
  assumes total: "\<And>m name st. \<exists>r. f m name st = Inr r"
  shows "\<exists>r. replace_all p f off s st = Inr r"
proof (induction "length s" arbitrary: s off st rule: less_induct)
  case less
  show ?case
  proof (cases "matchp p s")
    case None
    show ?thesis
    proof (cases s)
      case Nil
      with None show ?thesis by (simp add: replace_all_None_Nil)
    next
      case (Cons c cs)
      then obtain r where "replace_all p f (Suc off) cs st = Inr r"
        using less [of cs "Suc off" st] by auto
      with None Cons show ?thesis
        by (simp add: replace_all_None_Cons split: prod.split)
    qed
  next
    case (Some a)
    obtain caps rest where a: "a = (caps, rest)" by (cases a)
    let ?n = "length s - length rest"
    let ?name = "case caps of [] \<Rightarrow> show_nat off | c # _ \<Rightarrow> c"
    obtain q where "f (take ?n s) ?name st = Inr q"
      using total [of "take ?n s" ?name st] by blast
    then obtain r st' where cb: "f (take ?n s) ?name st = Inr (r, st')"
      by (cases q) simp
    show ?thesis
    proof (cases "0 < ?n")
      case True
      have "\<exists>q. replace_all p f (off + ?n) (drop ?n s) st' = Inr q"
        by (rule less) (use True in simp)
      then obtain q where "replace_all p f (off + ?n) (drop ?n s) st' = Inr q"
        by blast
      then show ?thesis
        using replace_all_Some_step [of p s caps rest f off st r st'] Some a cb True
        by (simp split: prod.split)
    next
      case False
      show ?thesis
      proof (cases s)
        case Nil
        with Some a cb show ?thesis
          by (simp add: replace_all_Some_empty_Nil)
      next
        case (Cons c cs)
        then obtain q where "replace_all p f (Suc off) cs st' = Inr q"
          using less [of cs "Suc off" st'] by auto
        then show ?thesis
          using replace_all_Some_empty_Cons [of p c cs caps rest f off st r st'] Some a cb False Cons
          by (simp split: prod.split)
      qed
    qed
  qed
qed

lemma fragment_pass_eq:
  "replace_all p (fragment_callback S fragments) 0 s False = Inr (fragment_pass S p fragments s)"
proof -
  have "\<exists>r. replace_all p (fragment_callback S fragments) 0 s False = Inr r"
    by (rule replace_all_total) (use fragment_callback_total in fast)
  then show ?thesis by (auto simp: fragment_pass_def)
qed

lemma fragment_loop_stop:
  "\<not> (hasMore \<and> depth < maxDepth) \<Longrightarrow>
   fragment_loop S p fragments s depth hasMore = Inr (s, depth, hasMore)"
  by (subst fragment_loop.simps) auto

lemma fragment_loop_step:
  "depth < maxDepth \<Longrightarrow>
   fragment_loop S p fragments s depth True =
     fragment_loop S p fragments (fst (fragment_pass S p fragments s)) (Suc depth)
       (snd (fragment_pass S p fragments s))"
  by (subst fragment_loop.simps) (simp add: fragment_pass_eq split: prod.split)

lemma text_after_shift:
  "text_after S p fragments s (Suc n) =
   text_after S p fragments (fst (fragment_pass S p fragments s)) n"
  by (induction n) simp_all

lemma replaces_shift:
  "replaces S p fragments s (Suc n) = replaces S p fragments (fst (fragment_pass S p fragments s)) n"
  unfolding replaces_def text_after_shift ..

lemma fragment_loop_settles:
  "\<not> replaces S p fragments s n \<Longrightarrow> \<forall>m<n. replaces S p fragments s m \<Longrightarrow> depth + n < maxDepth \<Longrightarrow>
   fragment_loop S p fragments s depth True =
     Inr (text_after S p fragments s (Suc n), depth + Suc n, False)"
proof (induction n arbitrary: s depth)
  case 0
  then have "snd (fragment_pass S p fragments s) = False" and "depth < maxDepth"
    by (simp_all add: replaces_def)
  then show ?case
    by (simp add: fragment_loop_step fragment_loop_stop)
next
  case (Suc n)
  let ?s = "fst (fragment_pass S p fragments s)"
  from Suc.prems have first: "snd (fragment_pass S p fragments s) = True"
    by (auto simp: replaces_def dest: spec [of _ 0])
  have "\<not> replaces S p fragments ?s n"
    using Suc.prems(1) by (simp add: replaces_shift)
  moreover have "\<forall>m<n. replaces S p fragments ?s m"
    using Suc.prems(2) by (auto simp: replaces_shift [symmetric])
  moreover have "Suc depth + n < maxDepth"
    using Suc.prems(3) by simp
  ultimately have "fragment_loop S p fragments ?s (Suc depth) True =
      Inr (text_after S p fragments ?s (Suc n), Suc depth + Suc n, False)"
    by (rule Suc.IH)
  moreover have "depth < maxDepth" using Suc.prems(3) by simp
  ultimately show ?case
    using first by (simp add: fragment_loop_step text_after_shift [symmetric] del: text_after.simps)
qed

lemma fragment_loop_cap:
  "\<forall>m<n. replaces S p fragments s m \<Longrightarrow> depth + Suc n = maxDepth \<Longrightarrow>
   fragment_loop S p fragments s depth True =
     Inr (text_after S p fragments s (Suc n), maxDepth, replaces S p fragments s n)"
proof (induction n arbitrary: s depth)
  case 0
  then have "depth < maxDepth" and "\<not> Suc depth < maxDepth" by simp_all
  then show ?case
    using 0 by (simp add: fragment_loop_step fragment_loop_stop replaces_def)
next
  case (Suc n)
  let ?s = "fst (fragment_pass S p fragments s)"
  from Suc.prems have first: "snd (fragment_pass S p fragments s) = True"
    by (auto simp: replaces_def dest: spec [of _ 0])
  have "\<forall>m<n. replaces S p fragments ?s m"
    using Suc.prems(1) by (auto simp: replaces_shift [symmetric])
  moreover have "Suc depth + Suc n = maxDepth"
    using Suc.prems(2) by simp
  ultimately have "fragment_loop S p fragments ?s (Suc depth) True =
      Inr (text_after S p fragments ?s (Suc n), maxDepth, replaces S p fragments ?s n)"
    by (rule Suc.IH)
  moreover have "depth < maxDepth" using Suc.prems(2) by simp
  ultimately show ?case
    using first
    by (simp add: fragment_loop_step text_after_shift [symmetric] replaces_shift [symmetric]
          del: text_after.simps)
qed

lemma fragment_pass_no_match:
  "\<not> has_placeholder p s \<Longrightarrow> fragment_pass S p fragments s = (s, False)"
  by (simp add: fragment_pass_def replace_all_no_match)

lemma substituteFragments_no_match:
  assumes "\<not> has_placeholder (getSyntaxPattern syntax) template"
  shows "substituteFragments S syntax template fragments = Inr template"
proof -
  let ?p = "getSyntaxPattern syntax"
  have pass: "fragment_pass S ?p fragments template = (template, False)"
    using assms by (rule fragment_pass_no_match)
  have "fragment_loop S ?p fragments template 0 True = fragment_loop S ?p fragments template (Suc 0) False"
    by (simp add: fragment_loop_step pass maxDepth_def)
  also have "\<dots> = Inr (template, Suc 0, False)"
    by (simp add: fragment_loop_stop)
  finally show ?thesis
    by (simp add: substituteFragments_def maxDepth_def)
qed

lemma substituteVariables_no_match:
  assumes "\<not> has_placeholder (getSyntaxPattern syntax) template"
  shows "substituteVariables S J syntax template variables allowUndefined = Inr template"
  using assms by (simp add: substituteVariables_def replace_all_no_match)

text \<open>
  C9. A text in which the placeholder pattern of the engine matches nowhere is rendered
  to itself, without an error, with an empty variable map and an empty fragment map
  (whatever the option \<^verbatim>\<open>allowUndefined\<close> is).
\<close>

theorem render_resolved_text_unchanged:
  "\<not> has_placeholder (getSyntaxPattern syntax) template \<Longrightarrow>
   render S J syntax template Map.empty Map.empty allowUndefined = Inr template"
  by (simp add: render_def substituteFragments_no_match substituteVariables_no_match)

theorem render_resolved_text_unchanged_witness:
  "\<forall>S J. \<not> has_placeholder (getSyntaxPattern ''{{variable}}'') ''You are a agent for Acme.'' \<and>
     render S J ''{{variable}}'' ''You are a agent for Acme.'' Map.empty Map.empty False =
       Inr ''You are a agent for Acme.''"
proof -
  have h: "\<not> has_placeholder (getSyntaxPattern ''{{variable}}'') ''You are a agent for Acme.''"
    by code_simp
  show ?thesis
    using h render_resolved_text_unchanged [OF h] by simp
qed

lemma mentions_iff:
  assumes "opening \<noteq> []"
  shows "mentions opening closing s n \<longleftrightarrow>
    (\<exists>pre post. s = pre @ placeholder opening closing n @ post)"
proof
  show "mentions opening closing s n \<Longrightarrow>
      \<exists>pre post. s = pre @ placeholder opening closing n @ post"
  proof (induction s)
    case Nil
    then show ?case by simp
  next
    case (Cons c cs)
    from Cons.prems consider
        "take (length (placeholder opening closing n)) (c # cs) = placeholder opening closing n"
      | "mentions opening closing cs n" by auto
    then show ?case
    proof cases
      case 1
      then have "c # cs = [] @ placeholder opening closing n @
          drop (length (placeholder opening closing n)) (c # cs)"
        by (metis append_Nil append_take_drop_id)
      then show ?thesis by blast
    next
      case 2
      with Cons.IH obtain pre post where "cs = pre @ placeholder opening closing n @ post"
        by blast
      then have "c # cs = (c # pre) @ placeholder opening closing n @ post" by simp
      then show ?thesis by blast
    qed
  qed
next
  assume "\<exists>pre post. s = pre @ placeholder opening closing n @ post"
  then obtain pre post where "s = pre @ placeholder opening closing n @ post" by blast
  then show "mentions opening closing s n"
  proof (induction pre arbitrary: s)
    case Nil
    then have "take (length (placeholder opening closing n)) s = placeholder opening closing n"
      by simp
    moreover from Nil assms have "s \<noteq> []" by (simp add: placeholder_def)
    ultimately show ?case by (cases s) simp_all
  next
    case (Cons a pre)
    then show ?case by simp
  qed
qed

lemma default_pattern:
  "getSyntaxPattern ''{{variable}}'' =
     [Lit CHR ''{'', Lit CHR ''{'', Ident, Lit CHR ''}'', Lit CHR ''}'']"
  by code_simp

lemma fenced_default: "fenced ''{{variable}}'' ''{{'' ''}}''"
  unfolding fenced_def default_pattern by (simp add: ident_char_def)

lemma ident_start_char: "ident_start c \<Longrightarrow> ident_char c"
  by (auto simp: ident_start_def ident_char_def)

lemma ident_tail_Some:
  "ident_tail k acc r = Some (caps, rest) \<Longrightarrow>
   \<exists>xs r' caps'. r = xs @ r' \<and> list_all ident_char xs \<and> k r' = Some (caps', rest) \<and>
      caps = (acc @ xs) # caps'"
proof (induction r arbitrary: acc)
  case Nil
  then show ?case
    by (auto simp: add_capture_def split: option.splits)
next
  case (Cons d r)
  show ?case
  proof (cases "ident_char d \<and> ident_tail k (acc @ [d]) r \<noteq> None")
    case True
    with Cons.prems have "ident_tail k (acc @ [d]) r = Some (caps, rest)"
      by (auto split: option.splits)
    from Cons.IH [OF this] obtain xs r' caps' where
      "r = xs @ r'" "list_all ident_char xs" "k r' = Some (caps', rest)"
      "caps = ((acc @ [d]) @ xs) # caps'"
      by blast
    with True have "d # r = (d # xs) @ r' \<and> list_all ident_char (d # xs) \<and>
        k r' = Some (caps', rest) \<and> caps = (acc @ (d # xs)) # caps'"
      by simp
    then show ?thesis by blast
  next
    case False
    with Cons.prems have "add_capture acc (k (d # r)) = Some (caps, rest)"
      by (auto split: option.splits if_splits)
    then obtain caps' where "k (d # r) = Some (caps', rest)" "caps = acc # caps'"
      by (auto simp: add_capture_def split: option.splits)
    then have "d # r = [] @ (d # r) \<and> list_all ident_char [] \<and>
        k (d # r) = Some (caps', rest) \<and> caps = (acc @ []) # caps'"
      by simp
    then show ?thesis by blast
  qed
qed

lemma ident_tail_greedy:
  "list_all ident_char xs \<Longrightarrow> (case r' of [] \<Rightarrow> True | d # _ \<Rightarrow> \<not> ident_char d) \<Longrightarrow>
   k r' = Some (caps', rest) \<Longrightarrow>
   ident_tail k acc (xs @ r') = Some ((acc @ xs) # caps', rest)"
proof (induction xs arbitrary: acc)
  case Nil
  then show ?case
    by (cases r') (simp_all add: add_capture_def)
next
  case (Cons x xs)
  then have "ident_tail k (acc @ [x]) (xs @ r') = Some (((acc @ [x]) @ xs) # caps', rest)"
    by simp
  with Cons.prems show ?case by simp
qed

text \<open>A pattern that starts with literal characters matches a text that starts with them.\<close>

lemma matchp_lits: "matchp (map Lit xs @ ts) (xs @ s) = matchp ts s"
  by (induction xs) simp_all

lemma matchp_lits_Some:
  "matchp (map Lit xs @ ts) s = Some r \<Longrightarrow> \<exists>s'. s = xs @ s' \<and> matchp ts s' = Some r"
proof (induction xs arbitrary: s)
  case Nil
  then show ?case by simp
next
  case (Cons x xs)
  then obtain s1 where s: "s = x # s1" and "matchp (map Lit xs @ ts) s1 = Some r"
    by (auto split: list.splits if_splits)
  with Cons.IH [of s1] obtain s' where "s1 = xs @ s'" "matchp ts s' = Some r" by blast
  with s show ?case by simp
qed

lemma matchp_placeholder:
  assumes "is_identifier n" and "closing \<noteq> []" and "\<not> ident_char (hd closing)"
  shows "matchp (map Lit opening @ Ident # map Lit closing)
      (placeholder opening closing n @ post) = Some ([n], post)"
proof -
  from assms(1) obtain c cs where n: "n = c # cs" "ident_start c" "list_all ident_char cs"
    by (auto simp: is_identifier_def split: list.splits)
  have k: "matchp (map Lit closing) (closing @ post) = Some ([], post)"
    using matchp_lits [of closing "[]" post] by simp
  have stop: "case closing @ post of [] \<Rightarrow> True | d # _ \<Rightarrow> \<not> ident_char d"
    using assms(2,3) by (cases closing) simp_all
  have "ident_tail (matchp (map Lit closing)) [c] (cs @ (closing @ post)) =
      Some (([c] @ cs) # [], post)"
    using n(3) stop k by (rule ident_tail_greedy)
  then have "matchp (Ident # map Lit closing) (n @ closing @ post) = Some ([n], post)"
    by (simp add: n)
  then show ?thesis
    using matchp_lits [of "opening" "Ident # map Lit closing" "n @ closing @ post"]
    by (simp add: placeholder_def)
qed

lemma matchp_fenced_shape:
  assumes "matchp (map Lit opening @ Ident # map Lit closing) s = Some (caps, rest)"
  shows "\<exists>n. is_identifier n \<and> s = placeholder opening closing n @ rest \<and> caps = [n]"
proof -
  from matchp_lits_Some [OF assms] obtain s' where s': "s = opening @ s'"
    and m: "matchp (Ident # map Lit closing) s' = Some (caps, rest)"
    by blast
  from m obtain d r where dr: "s' = d # r" "ident_start d"
    and tail: "ident_tail (matchp (map Lit closing)) [d] r = Some (caps, rest)"
    by (auto split: list.splits if_splits)
  from ident_tail_Some [OF tail] obtain xs r' caps' where
    r: "r = xs @ r'" "list_all ident_char xs"
    and k: "matchp (map Lit closing) r' = Some (caps', rest)"
    and caps: "caps = ([d] @ xs) # caps'"
    by blast
  from matchp_lits_Some [of closing "[]" r' "(caps', rest)"] k
  have "r' = closing @ rest" "caps' = []"
    by auto
  with s' dr r caps
  have "is_identifier (d # xs) \<and> s = placeholder opening closing (d # xs) @ rest \<and>
      caps = [d # xs]"
    by (simp add: is_identifier_def placeholder_def)
  then show ?thesis by blast
qed

section \<open>The pass cap of the fragment phase\<close>

lemma replace_all_invariant:
  fixes f :: "string \<Rightarrow> string \<Rightarrow> 's \<Rightarrow> error + string \<times> 's"
  assumes cb: "\<And>m name st. I st \<Longrightarrow> \<exists>r st'. f m name st = Inr (r, st') \<and> I st'"
  shows "I st \<Longrightarrow> \<exists>out st'. replace_all p f off s st = Inr (out, st') \<and> I st'"
proof (induction "length s" arbitrary: s off st rule: less_induct)
  case less
  show ?case
  proof (cases "matchp p s")
    case None
    show ?thesis
    proof (cases s)
      case Nil
      with None less.prems show ?thesis by (simp add: replace_all_None_Nil)
    next
      case (Cons c cs)
      then obtain out st' where "replace_all p f (Suc off) cs st = Inr (out, st')" "I st'"
        using less.hyps [of cs st "Suc off"] less.prems by auto
      with None Cons show ?thesis
        by (simp add: replace_all_None_Cons)
    qed
  next
    case (Some a)
    obtain caps rest where a: "a = (caps, rest)" by (cases a)
    let ?n = "length s - length rest"
    let ?name = "case caps of [] \<Rightarrow> show_nat off | c # _ \<Rightarrow> c"
    obtain r st1 where cb1: "f (take ?n s) ?name st = Inr (r, st1)" and st1: "I st1"
      using cb [OF less.prems, of "take ?n s" ?name] by blast
    show ?thesis
    proof (cases "0 < ?n")
      case True
      have "\<exists>out st'. replace_all p f (off + ?n) (drop ?n s) st1 = Inr (out, st') \<and> I st'"
        by (rule less.hyps) (use True st1 in simp_all)
      then obtain out st' where "replace_all p f (off + ?n) (drop ?n s) st1 = Inr (out, st')" "I st'"
        by blast
      then show ?thesis
        using replace_all_Some_step [of p s caps rest f off st r st1] Some a cb1 True
        by simp
    next
      case False
      show ?thesis
      proof (cases s)
        case Nil
        with Some a cb1 st1 show ?thesis
          by (simp add: replace_all_Some_empty_Nil)
      next
        case (Cons c cs)
        then obtain out st' where "replace_all p f (Suc off) cs st1 = Inr (out, st')" "I st'"
          using less.hyps [of cs st1 "Suc off"] st1 by auto
        then show ?thesis
          using replace_all_Some_empty_Cons [of p c cs caps rest f off st r st1] Some a cb1 False Cons
          by simp
      qed
    qed
  qed
qed

lemma fragment_flag_stays:
  "\<exists>out. replace_all p (fragment_callback S fragments) off s True = Inr (out, True)"
proof -
  have "\<exists>out st'. replace_all p (fragment_callback S fragments) off s True = Inr (out, st') \<and>
      st' = True"
    by (rule replace_all_invariant [where I = "\<lambda>b. b = True"])
      (auto simp: fragment_callback_def split: property.splits)
  then show ?thesis by blast
qed

text \<open>
  With a fenced syntax, a match of the pattern that starts before a placeholder ends
  before it.
\<close>

lemma placeholder_no_overlap:
  assumes n': "is_identifier n'"
    and eq: "placeholder opening closing n' @ rest = pre @ placeholder opening closing n @ post"
    and pre: "pre \<noteq> []"
    and op: "opening \<noteq> []" "list_all (\<lambda>c. \<not> ident_char c) opening"
      "hd opening \<notin> set closing"
  shows "\<exists>us. pre = placeholder opening closing n' @ us \<and>
    rest = us @ placeholder opening closing n @ post"
proof -
  define P where "P = placeholder opening closing n'"
  define X where "X = placeholder opening closing n @ post"
  from n' obtain c cs where c: "n' = c # cs" "ident_start c" "list_all ident_char cs"
    by (auto simp: is_identifier_def split: list.splits)
  have idn: "ident_char x" if "x \<in> set n'" for x
    using that c by (auto simp: list_all_iff dest: ident_start_char)
  have nop: "\<not> ident_char x" if "x \<in> set opening" for x
    using that op(2) by (auto simp: list_all_iff)
  have P: "P = opening @ n' @ closing"
    by (simp add: P_def placeholder_def)
  have hdX: "hd X = hd opening"
    using op(1) by (simp add: X_def placeholder_def)
  have Xne: "X \<noteq> []"
    using op(1) by (simp add: X_def placeholder_def)
  from eq have "P @ rest = pre @ X" by (simp add: P_def X_def)
  then obtain us where
    "P = pre @ us \<and> us @ rest = X \<or> P @ us = pre \<and> rest = us @ X"
    using append_eq_append_conv2 [of P rest pre X] by blast
  then consider
      (inside) us where "P = pre @ us" "us @ rest = X" "us \<noteq> []"
    | (after) us where "P @ us = pre" "rest = us @ X"
    by (cases "us = []") auto
  then show ?thesis
  proof cases
    case after
    then have "pre = P @ us \<and> rest = us @ X" by simp
    then show ?thesis unfolding P_def X_def by blast
  next
    case inside
    define j where "j = length pre"
    have j0: "0 < j" using pre by (simp add: j_def)
    have len: "length opening + length n' + length closing = j + length us"
      using inside(1) by (simp add: P j_def) (metis length_append add.assoc)
    have hd: "hd us = hd opening"
      using inside(2,3) hdX by (cases us) auto
    have at_j: "P ! j = hd opening"
      using inside(1,3) hd by (simp add: j_def nth_append hd_conv_nth)
    have us_open: "us ! k = opening ! k" if "k < length opening" "k < length us" for k
    proof -
      have "us ! k = (us @ rest) ! k" using that(2) by (simp add: nth_append)
      also have "\<dots> = X ! k" using inside(2) by simp
      also have "\<dots> = opening ! k"
        using that(1) by (simp add: X_def placeholder_def nth_append)
      finally show ?thesis .
    qed
    consider (a) "j < length opening"
      | (b) "length opening \<le> j" "j < length opening + length n'"
      | (c) "length opening + length n' \<le> j"
      by linarith
    then have False
    proof cases
      case a
      define k where "k = length opening - j"
      have k: "k < length opening" "k < length us" "j + k = length opening"
        using a j0 len c(1) by (simp_all add: k_def)
      have "P ! length opening = c"
        by (simp add: P c(1) nth_append)
      moreover have "length opening - length pre = k"
        using k(3) by (simp add: j_def)
      then have "P ! length opening = us ! k"
        using k(3) inside(1) by (simp add: j_def nth_append)
      ultimately have "c = opening ! k"
        using us_open [OF k(1,2)] by simp
      then have "c \<in> set opening" using k(1) by simp
      with nop have "\<not> ident_char c" by blast
      with c(2) show False by (simp add: ident_start_char)
    next
      case b
      have lt: "j - length opening < length n'" using b by simp
      with b have "P ! j = n' ! (j - length opening)"
        by (simp add: P nth_append)
      with lt have "P ! j \<in> set n'" by simp
      then have "ident_char (hd opening)" using at_j idn by simp
      moreover have "hd opening \<in> set opening" using op(1) by simp
      ultimately show False using nop by blast
    next
      case c
      have "0 < length us" using inside(3) by simp
      with len c have lt: "j - length opening - length n' < length closing" by linarith
      from c have ge: "\<not> j < length opening" "\<not> j - length opening < length n'"
        by simp_all
      then have "P ! j = closing ! (j - length opening - length n')"
        by (simp add: P nth_append)
      with lt have "P ! j \<in> set closing" by simp
      with at_j op(3) show False by simp
    qed
    then show ?thesis ..
  qed
qed

lemma fragment_callback_cases:
  "\<exists>r st'. fragment_callback S fragments m n st = Inr (r, st')"
  by (cases "get_property fragments n") (auto simp: fragment_callback_def)

text \<open>
  A pass with a fenced syntax over a text that contains the placeholder of a fragment
  replaces it: the text of the fragment is part of the result.
\<close>

lemma pass_replaces_mentioned:
  assumes n: "is_identifier n" and t: "fragments n = Some t"
    and op: "opening \<noteq> []" "list_all (\<lambda>c. \<not> ident_char c) opening"
      "hd opening \<notin> set closing"
    and cl: "closing \<noteq> []" "\<not> ident_char (hd closing)"
  shows "\<exists>o1 o2. replace_all (map Lit opening @ Ident # map Lit closing)
      (fragment_callback S fragments) off (pre @ placeholder opening closing n @ post) st =
      Inr (o1 @ t @ o2, True)"
proof -
  define P where "P = map Lit opening @ Ident # map Lit closing"
  define f where "f = fragment_callback S fragments"
  define ph where "ph = placeholder opening closing"
  have match_here: "matchp P (ph n @ post) = Some ([n], post)"
    unfolding P_def ph_def using n cl by (rule matchp_placeholder)
  have shape: "\<exists>n'. is_identifier n' \<and> s = ph n' @ rest \<and> caps = [n']"
    if "matchp P s = Some (caps, rest)" for s caps rest
    using that unfolding P_def ph_def by (rule matchp_fenced_shape)
  have no_overlap: "\<exists>us. pre = ph n' @ us \<and> rest = us @ ph n @ post"
    if "is_identifier n'" "ph n' @ rest = pre @ ph n @ post" "pre \<noteq> []" for n' rest pre
    using that op unfolding ph_def by (rule placeholder_no_overlap)
  have length_placeholder: "0 < length (ph m)" for m
    using op(1) by (simp add: ph_def placeholder_def)
  have flag: "\<exists>out. replace_all P f off s True = Inr (out, True)" for off s
    unfolding f_def by (rule fragment_flag_stays)
  have f_n: "f m n st = Inr (t, True)" for m st
    unfolding f_def using t by (simp add: fragment_callback_def get_property_def)
  have f_any: "\<exists>r st'. f m n' st = Inr (r, st')" for m n' st
    unfolding f_def by (rule fragment_callback_cases)
  have "\<exists>o1 o2. replace_all P f off (pre @ ph n @ post) st = Inr (o1 @ t @ o2, True)"
  proof (induction "length pre" arbitrary: pre off st rule: less_induct)
    case less
    define s where "s = pre @ ph n @ post"
    show ?case
    proof (cases pre)
      case Nil
      then have s: "s = ph n @ post" by (simp add: s_def)
      have len: "length s - length post = length (ph n)"
        by (simp add: s)
      obtain out where out:
        "replace_all P f (off + length (ph n)) post True = Inr (out, True)"
        using flag by blast
      have "matchp P s = Some ([n], post)"
        using match_here by (simp add: s)
      moreover have "f (take (length s - length post) s) (case [n] of [] \<Rightarrow> show_nat off | c # _ \<Rightarrow> c)
          st = Inr (t, True)"
        by (simp add: f_n)
      moreover have "0 < length s - length post"
        unfolding len by (rule length_placeholder)
      ultimately have "replace_all P f off s st =
          (case replace_all P f (off + (length s - length post)) (drop (length s - length post) s)
                  True of
             Inl e \<Rightarrow> Inl e
           | Inr (out, st'') \<Rightarrow> Inr (t @ out, st''))"
        by (rule replace_all_Some_step)
      also have "drop (length s - length post) s = post"
        unfolding len by (simp add: s)
      finally have "replace_all P f off s st = Inr ([] @ t @ out, True)"
        unfolding len using out by simp
      then show ?thesis unfolding s_def by blast
    next
      case (Cons c cs)
      show ?thesis
      proof (cases "matchp P s")
        case None
        obtain o1 o2 where "replace_all P f (Suc off) (cs @ ph n @ post) st =
            Inr (o1 @ t @ o2, True)"
          using less [of cs "Suc off" st] Cons by auto
        moreover have "matchp P (c # cs @ ph n @ post) = None"
          using None by (simp add: s_def Cons)
        ultimately have "replace_all P f off (c # cs @ ph n @ post) st =
            Inr ((c # o1) @ t @ o2, True)"
          by (simp add: replace_all_None_Cons)
        then have "replace_all P f off (pre @ ph n @ post) st =
            Inr ((c # o1) @ t @ o2, True)"
          by (simp add: Cons)
        then show ?thesis by blast
      next
        case (Some a)
        obtain caps rest where a: "a = (caps, rest)" by (cases a)
        from shape [of s caps rest] Some a obtain n' where
          n': "is_identifier n'" "s = ph n' @ rest" "caps = [n']"
          by auto
        have "ph n' @ rest = pre @ ph n @ post"
          using n'(2) by (simp add: s_def)
        from no_overlap [OF n'(1) this] Cons
        obtain us where us: "pre = ph n' @ us" "rest = us @ ph n @ post"
          by auto
        have len: "length s - length rest = length (ph n')"
          by (simp add: n'(2))
        obtain r st1 where cb: "f (ph n') n' st = Inr (r, st1)"
          using f_any by blast
        have "length us < length pre"
          using us(1) length_placeholder [of n'] by simp
        then obtain o1 o2 where ih: "replace_all P f (off + length (ph n'))
            (us @ ph n @ post) st1 = Inr (o1 @ t @ o2, True)"
          using less [of us "off + length (ph n')" st1] by auto
        have "matchp P s = Some (caps, rest)"
          using Some a by simp
        moreover have "f (take (length s - length rest) s)
            (case caps of [] \<Rightarrow> show_nat off | c # _ \<Rightarrow> c) st = Inr (r, st1)"
          unfolding len using cb by (simp add: n'(2,3))
        moreover have "0 < length s - length rest"
          unfolding len by (rule length_placeholder)
        ultimately have "replace_all P f off s st =
            (case replace_all P f (off + (length s - length rest))
                    (drop (length s - length rest) s) st1 of
               Inl e \<Rightarrow> Inl e
             | Inr (out, st'') \<Rightarrow> Inr (r @ out, st''))"
          by (rule replace_all_Some_step)
        also have "drop (length s - length rest) s = us @ ph n @ post"
          unfolding len by (simp add: n'(2) us(2))
        finally have "replace_all P f off s st = Inr ((r @ o1) @ t @ o2, True)"
          unfolding len using ih by simp
        then show ?thesis unfolding s_def by blast
      qed
    qed
  qed
  then show ?thesis unfolding P_def f_def ph_def .
qed

lemma mentions_inside:
  assumes "opening \<noteq> []" and "mentions opening closing t m"
  shows "mentions opening closing (o1 @ t @ o2) m"
proof -
  from assms obtain pre post where "t = pre @ placeholder opening closing m @ post"
    using mentions_iff [of "opening" closing t m] by blast
  then have "o1 @ t @ o2 = (o1 @ pre) @ placeholder opening closing m @ (post @ o2)" by simp
  then show ?thesis
    using mentions_iff [of "opening" closing "o1 @ t @ o2" m] assms(1) by blast
qed

lemma self_including_pass:
  assumes f: "fenced syntax opening closing"
    and C: "self_including opening closing fragments C"
    and s: "\<exists>n\<in>C. mentions opening closing s n"
  shows "snd (fragment_pass S (getSyntaxPattern syntax) fragments s) = True \<and>
    (\<exists>m\<in>C. mentions opening closing
       (fst (fragment_pass S (getSyntaxPattern syntax) fragments s)) m)"
proof -
  from f have P: "getSyntaxPattern syntax = map Lit opening @ Ident # map Lit closing"
    and op: "opening \<noteq> []" "list_all (\<lambda>c. \<not> ident_char c) opening"
      "hd opening \<notin> set closing"
    and cl: "closing \<noteq> []" "\<not> ident_char (hd closing)"
    by (simp_all add: fenced_def)
  from s obtain n pre post where n: "n \<in> C"
    and eq: "s = pre @ placeholder opening closing n @ post"
    using mentions_iff [of "opening" closing s] op(1) by blast
  from C n obtain t m where t: "is_identifier n" "fragments n = Some t" "m \<in> C"
      "mentions opening closing t m"
    unfolding self_including_def by blast
  have "\<exists>o1 o2. replace_all (map Lit opening @ Ident # map Lit closing)
      (fragment_callback S fragments) 0 (pre @ placeholder opening closing n @ post) False =
      Inr (o1 @ t @ o2, True)"
    using t(1,2) op cl by (rule pass_replaces_mentioned)
  then obtain o1 o2 where
    "replace_all (getSyntaxPattern syntax) (fragment_callback S fragments) 0 s False =
       Inr (o1 @ t @ o2, True)"
    using eq P by auto
  then have "fragment_pass S (getSyntaxPattern syntax) fragments s = (o1 @ t @ o2, True)"
    by (simp add: fragment_pass_def)
  with t(3,4) op(1) show ?thesis
    by (auto intro: mentions_inside)
qed

lemma self_including_every_pass:
  assumes f: "fenced syntax opening closing"
    and C: "self_including opening closing fragments C"
    and s: "\<exists>n\<in>C. mentions opening closing s n"
  shows "replaces S (getSyntaxPattern syntax) fragments s k"
proof -
  have inv: "\<exists>n\<in>C. mentions opening closing
      (text_after S (getSyntaxPattern syntax) fragments s k) n" for k
  proof (induction k)
    case 0
    with s show ?case by simp
  next
    case (Suc k)
    from self_including_pass [OF f C Suc] show ?case by simp
  qed
  from self_including_pass [OF f C inv [of k]] show ?thesis
    by (simp add: replaces_def)
qed

lemma replace_all_error_from_callback:
  fixes f :: "string \<Rightarrow> string \<Rightarrow> 's \<Rightarrow> error + string \<times> 's"
  shows "replace_all p f off s st = Inl e \<Longrightarrow> \<exists>m name st'. f m name st' = Inl e"
proof (induction "length s" arbitrary: s off st rule: less_induct)
  case less
  show ?case
  proof (cases "matchp p s")
    case None
    show ?thesis
    proof (cases s)
      case Nil
      with None less.prems show ?thesis by (simp add: replace_all_None_Nil)
    next
      case (Cons c cs)
      with None less.prems have "replace_all p f (Suc off) cs st = Inl e"
        by (simp add: replace_all_None_Cons split: sum.splits prod.splits)
      with Cons show ?thesis
        using less.hyps [of cs "Suc off" st] by simp
    qed
  next
    case (Some a)
    obtain caps rest where a: "a = (caps, rest)" by (cases a)
    let ?n = "length s - length rest"
    let ?name = "case caps of [] \<Rightarrow> show_nat off | c # _ \<Rightarrow> c"
    show ?thesis
    proof (cases "f (take ?n s) ?name st")
      case (Inl e')
      with Some a less.prems have "e' = e"
        using replace_all_Some_error [of p s caps rest f off st e'] by simp
      with Inl show ?thesis by blast
    next
      case (Inr q)
      obtain r st1 where q: "q = (r, st1)" by (cases q)
      show ?thesis
      proof (cases "0 < ?n")
        case True
        with Some a Inr q less.prems
        have "replace_all p f (off + ?n) (drop ?n s) st1 = Inl e"
          using replace_all_Some_step [of p s caps rest f off st r st1]
          by (simp split: sum.splits prod.splits)
        moreover have "length (drop ?n s) < length s" using True by simp
        ultimately show ?thesis
          using less.hyps [of "drop ?n s" "off + ?n" st1] by blast
      next
        case False
        show ?thesis
        proof (cases s)
          case Nil
          with Some a Inr q less.prems show ?thesis
            using replace_all_Some_empty_Nil [of p caps rest f off st r st1] by simp
        next
          case (Cons c cs)
          with Some a Inr q False less.prems
          have "replace_all p f (Suc off) cs st1 = Inl e"
            using replace_all_Some_empty_Cons [of p c cs caps rest f off st r st1]
            by (simp split: sum.splits prod.splits)
          with Cons show ?thesis
            using less.hyps [of cs "Suc off" st1] by simp
        qed
      qed
    qed
  qed
qed

lemma substituteVariables_no_depth_error:
  "substituteVariables S J syntax s variables allowUndefined \<noteq> Inl depth_error"
proof
  assume "substituteVariables S J syntax s variables allowUndefined = Inl depth_error"
  then have "replace_all (getSyntaxPattern syntax)
      (variable_callback S J variables allowUndefined) 0 s () = Inl depth_error"
    by (simp add: substituteVariables_def split: sum.splits prod.splits)
  from replace_all_error_from_callback [OF this] obtain m name u where
    "variable_callback S J variables allowUndefined m name u = Inl depth_error"
    by blast
  then show False
    by (simp add: variable_callback_def depth_error_def Let_def split: if_splits)
qed

lemma render_depth_error:
  "render S J syntax template variables fragments allowUndefined = Inl depth_error \<longleftrightarrow>
   substituteFragments S syntax template fragments = Inl depth_error"
  using substituteVariables_no_depth_error
  by (auto simp: render_def split: sum.splits)

lemma substituteFragments_cap:
  assumes "\<forall>k<maxDepth - 1. replaces S (getSyntaxPattern syntax) fragments template k"
  shows "fragment_loop S (getSyntaxPattern syntax) fragments template 0 True =
      Inr (text_after S (getSyntaxPattern syntax) fragments template maxDepth, maxDepth,
           replaces S (getSyntaxPattern syntax) fragments template (maxDepth - 1))"
    and "substituteFragments S syntax template fragments = Inl depth_error"
proof -
  have "0 + Suc (maxDepth - 1) = maxDepth" by (simp add: maxDepth_def)
  from fragment_loop_cap [OF assms this]
  show loop: "fragment_loop S (getSyntaxPattern syntax) fragments template 0 True =
      Inr (text_after S (getSyntaxPattern syntax) fragments template maxDepth, maxDepth,
           replaces S (getSyntaxPattern syntax) fragments template (maxDepth - 1))"
    by (simp add: maxDepth_def)
  then show "substituteFragments S syntax template fragments = Inl depth_error"
    by (simp add: substituteFragments_def depth_error_def)
qed

lemma substituteFragments_settles:
  assumes "n < maxDepth - 1"
    and "\<not> replaces S (getSyntaxPattern syntax) fragments template n"
    and "\<forall>k<n. replaces S (getSyntaxPattern syntax) fragments template k"
  shows "fragment_loop S (getSyntaxPattern syntax) fragments template 0 True =
      Inr (text_after S (getSyntaxPattern syntax) fragments template (Suc n), Suc n, False)"
    and "substituteFragments S syntax template fragments =
      Inr (text_after S (getSyntaxPattern syntax) fragments template (Suc n))"
proof -
  have "0 + n < maxDepth" using assms(1) by simp
  from fragment_loop_settles [OF assms(2,3) this]
  show loop: "fragment_loop S (getSyntaxPattern syntax) fragments template 0 True =
      Inr (text_after S (getSyntaxPattern syntax) fragments template (Suc n), Suc n, False)"
    by simp
  have "\<not> maxDepth \<le> Suc n" using assms(1) by simp
  with loop show "substituteFragments S syntax template fragments =
      Inr (text_after S (getSyntaxPattern syntax) fragments template (Suc n))"
    by (simp add: substituteFragments_def del: text_after.simps)
qed

lemma substituteFragments_error_iff:
  "(\<exists>e. substituteFragments S syntax template fragments = Inl e) \<longleftrightarrow>
   (\<forall>k<maxDepth - 1. replaces S (getSyntaxPattern syntax) fragments template k)"
proof
  assume err: "\<exists>e. substituteFragments S syntax template fragments = Inl e"
  show "\<forall>k<maxDepth - 1. replaces S (getSyntaxPattern syntax) fragments template k"
  proof (rule ccontr)
    assume "\<not> (\<forall>k<maxDepth - 1. replaces S (getSyntaxPattern syntax) fragments template k)"
    then obtain k where k: "k < maxDepth - 1"
        "\<not> replaces S (getSyntaxPattern syntax) fragments template k"
      by blast
    define n where "n = (LEAST k. \<not> replaces S (getSyntaxPattern syntax) fragments template k)"
    have n: "\<not> replaces S (getSyntaxPattern syntax) fragments template n"
      unfolding n_def using k(2) by (rule LeastI)
    have "n \<le> k" unfolding n_def using k(2) by (rule Least_le)
    with k(1) have "n < maxDepth - 1" by simp
    moreover have "\<forall>j<n. replaces S (getSyntaxPattern syntax) fragments template j"
      unfolding n_def using not_less_Least by blast
    ultimately have "substituteFragments S syntax template fragments =
        Inr (text_after S (getSyntaxPattern syntax) fragments template (Suc n))"
      using n by (intro substituteFragments_settles)
    with err show False by simp
  qed
next
  assume "\<forall>k<maxDepth - 1. replaces S (getSyntaxPattern syntax) fragments template k"
  then have "substituteFragments S syntax template fragments = Inl depth_error"
    by (rule substituteFragments_cap)
  then show "\<exists>e. substituteFragments S syntax template fragments = Inl e" by blast
qed

text \<open>
  C1 (amended). The pass cap is the constant 10. The fragment phase raises the depth
  error exactly when each of the first nine passes replaces a placeholder: the tenth
  pass then runs, the loop stops at depth 10 and the error is raised whether or not the
  tenth pass replaced anything; exactly ten passes have run, and \<^verbatim>\<open>render\<close> raises the same
  error. When pass number \<open>n + 1\<close>, at most the ninth, is the first that replaces
  nothing, the loop stops after that pass and the phase returns the text as it is then,
  so \<^verbatim>\<open>render\<close> raises no depth error. With a fenced syntax, as the default syntax is, a
  template that contains the placeholder of a fragment that includes itself, directly
  or through other fragments, makes every pass replace, so the depth error is raised
  after exactly ten passes.
\<close>

theorem fragment_depth_error_at_pass_cap:
  "maxDepth = 10 \<and>
   ((\<exists>e. substituteFragments S syntax template fragments = Inl e) \<longleftrightarrow>
      (\<forall>k<maxDepth - 1. replaces S (getSyntaxPattern syntax) fragments template k)) \<and>
   ((\<forall>k<maxDepth - 1. replaces S (getSyntaxPattern syntax) fragments template k) \<longrightarrow>
      substituteFragments S syntax template fragments = Inl depth_error \<and>
      render S J syntax template variables fragments allowUndefined = Inl depth_error \<and>
      fragment_loop S (getSyntaxPattern syntax) fragments template 0 True =
        Inr (text_after S (getSyntaxPattern syntax) fragments template maxDepth, maxDepth,
             replaces S (getSyntaxPattern syntax) fragments template (maxDepth - 1))) \<and>
   (n < maxDepth - 1 \<and> \<not> replaces S (getSyntaxPattern syntax) fragments template n \<and>
    (\<forall>k<n. replaces S (getSyntaxPattern syntax) fragments template k) \<longrightarrow>
      substituteFragments S syntax template fragments =
        Inr (text_after S (getSyntaxPattern syntax) fragments template (Suc n)) \<and>
      render S J syntax template variables fragments allowUndefined \<noteq> Inl depth_error \<and>
      fragment_loop S (getSyntaxPattern syntax) fragments template 0 True =
        Inr (text_after S (getSyntaxPattern syntax) fragments template (Suc n), Suc n, False)) \<and>
   (fenced syntax opening closing \<and> self_including opening closing fragments C \<and>
    (\<exists>m\<in>C. mentions opening closing template m) \<longrightarrow>
      substituteFragments S syntax template fragments = Inl depth_error \<and>
      render S J syntax template variables fragments allowUndefined = Inl depth_error \<and>
      fragment_loop S (getSyntaxPattern syntax) fragments template 0 True =
        Inr (text_after S (getSyntaxPattern syntax) fragments template maxDepth,
             maxDepth, True))"
proof (intro conjI impI)
  show "maxDepth = 10" by (simp add: maxDepth_def)
next
  show "(\<exists>e. substituteFragments S syntax template fragments = Inl e) \<longleftrightarrow>
      (\<forall>k<maxDepth - 1. replaces S (getSyntaxPattern syntax) fragments template k)"
    by (rule substituteFragments_error_iff)
next
  assume a: "\<forall>k<maxDepth - 1. replaces S (getSyntaxPattern syntax) fragments template k"
  then show err: "substituteFragments S syntax template fragments = Inl depth_error"
    by (rule substituteFragments_cap)
  then show "render S J syntax template variables fragments allowUndefined = Inl depth_error"
    by (simp add: render_depth_error)
  from a show "fragment_loop S (getSyntaxPattern syntax) fragments template 0 True =
        Inr (text_after S (getSyntaxPattern syntax) fragments template maxDepth, maxDepth,
             replaces S (getSyntaxPattern syntax) fragments template (maxDepth - 1))"
    by (rule substituteFragments_cap)
next
  assume a: "n < maxDepth - 1 \<and> \<not> replaces S (getSyntaxPattern syntax) fragments template n \<and>
    (\<forall>k<n. replaces S (getSyntaxPattern syntax) fragments template k)"
  then show ok: "substituteFragments S syntax template fragments =
        Inr (text_after S (getSyntaxPattern syntax) fragments template (Suc n))"
    by (intro substituteFragments_settles) simp_all
  then show "render S J syntax template variables fragments allowUndefined \<noteq> Inl depth_error"
    by (simp add: render_depth_error del: text_after.simps)
  from a show "fragment_loop S (getSyntaxPattern syntax) fragments template 0 True =
        Inr (text_after S (getSyntaxPattern syntax) fragments template (Suc n), Suc n, False)"
    by (intro substituteFragments_settles) simp_all
next
  assume a: "fenced syntax opening closing \<and> self_including opening closing fragments C \<and>
    (\<exists>m\<in>C. mentions opening closing template m)"
  have every: "replaces S (getSyntaxPattern syntax) fragments template k" for k
    using a self_including_every_pass [of "syntax" "opening" closing fragments C template S k]
    by blast
  then have "\<forall>k<maxDepth - 1. replaces S (getSyntaxPattern syntax) fragments template k"
    by simp
  from substituteFragments_cap [OF this]
  show err: "substituteFragments S syntax template fragments = Inl depth_error"
    and "fragment_loop S (getSyntaxPattern syntax) fragments template 0 True =
        Inr (text_after S (getSyntaxPattern syntax) fragments template maxDepth,
             maxDepth, True)"
    using every by simp_all
  from err
  show "render S J syntax template variables fragments allowUndefined = Inl depth_error"
    by (simp add: render_depth_error)
qed

text \<open>
  The witness: a fragment that includes itself, named by the template, raises, and so do
  two fragments that include each other under the syntax \<^verbatim>\<open>${variable}\<close>; a template whose
  fragments are resolved after two passes returns after the third; and eight nested
  fragments of which the last names \<^verbatim>\<open>constructor\<close> raise, because the ninth pass
  replaces that placeholder by the text of the function that the fragment map inherits.
\<close>

theorem fragment_depth_error_at_pass_cap_witness:
  "fenced ''{{variable}}'' ''{{'' ''}}'' \<and>
   self_including ''{{'' ''}}'' [''a'' \<mapsto> ''x{{a}}''] {''a''} \<and>
   mentions ''{{'' ''}}'' ''{{a}}'' ''a'' \<and>
   substituteFragments plain_String ''{{variable}}'' ''{{a}}'' [''a'' \<mapsto> ''x{{a}}''] =
     Inl depth_error \<and>
   fragment_loop plain_String (getSyntaxPattern ''{{variable}}'') [''a'' \<mapsto> ''x{{a}}'']
     ''{{a}}'' 0 True = Inr (''xxxxxxxxxx{{a}}'', 10, True) \<and>
   fenced ''${variable}'' ''${'' ''}'' \<and>
   self_including ''${'' ''}'' [''a'' \<mapsto> ''${b}'', ''b'' \<mapsto> ''<${a}>''] {''a'', ''b''} \<and>
   mentions ''${'' ''}'' ''go ${a}'' ''a'' \<and>
   substituteFragments plain_String ''${variable}'' ''go ${a}''
     [''a'' \<mapsto> ''${b}'', ''b'' \<mapsto> ''<${a}>''] = Inl depth_error \<and>
   replaces plain_String (getSyntaxPattern ''{{variable}}'')
     [''f'' \<mapsto> ''<{{g}}>'', ''g'' \<mapsto> ''G''] ''a {{f}} b'' 0 \<and>
   replaces plain_String (getSyntaxPattern ''{{variable}}'')
     [''f'' \<mapsto> ''<{{g}}>'', ''g'' \<mapsto> ''G''] ''a {{f}} b'' 1 \<and>
   \<not> replaces plain_String (getSyntaxPattern ''{{variable}}'')
     [''f'' \<mapsto> ''<{{g}}>'', ''g'' \<mapsto> ''G''] ''a {{f}} b'' 2 \<and>
   substituteFragments plain_String ''{{variable}}'' ''a {{f}} b''
     [''f'' \<mapsto> ''<{{g}}>'', ''g'' \<mapsto> ''G''] = Inr ''a <G> b'' \<and>
   text_after plain_String (getSyntaxPattern ''{{variable}}'') inherited_chain ''{{a}}'' 8 =
     ''{{constructor}}'' \<and>
   replaces plain_String (getSyntaxPattern ''{{variable}}'') inherited_chain ''{{a}}'' 8 \<and>
   text_after plain_String (getSyntaxPattern ''{{variable}}'') inherited_chain ''{{a}}'' 9 =
     ''function Object() { [native code] }'' \<and>
   substituteFragments plain_String ''{{variable}}'' ''{{a}}'' inherited_chain =
     Inl depth_error"
proof -
  let ?P = "getSyntaxPattern ''{{variable}}''"
  let ?cyc = "[''a'' \<mapsto> ''x{{a}}'']"
  let ?two = "[''a'' \<mapsto> ''${b}'', ''b'' \<mapsto> ''<${a}>'']"
  let ?fr = "[''f'' \<mapsto> ''<{{g}}>'', ''g'' \<mapsto> ''G'']"
  have f1: "fenced ''{{variable}}'' ''{{'' ''}}''"
    by (rule fenced_default)
  have m1: "mentions ''{{'' ''}}'' ''{{a}}'' ''a''"
    by (simp add: placeholder_def)
  have "mentions ''{{'' ''}}'' ''x{{a}}'' ''a''"
    by (simp add: placeholder_def)
  then have c1: "self_including ''{{'' ''}}'' ?cyc {''a''}"
    by (simp add: self_including_def is_identifier_def ident_start_def)
  from fragment_depth_error_at_pass_cap
    [of plain_String "''{{variable}}''" "''{{a}}''" ?cyc _ _ _ _ "''{{''" "''}}''" "{''a''}"]
    f1 c1 m1
  have err: "substituteFragments plain_String ''{{variable}}'' ''{{a}}'' ?cyc = Inl depth_error"
    and loop: "fragment_loop plain_String ?P ?cyc ''{{a}}'' 0 True =
      Inr (text_after plain_String ?P ?cyc ''{{a}}'' maxDepth, maxDepth, True)"
    by blast+
  have "text_after plain_String ?P ?cyc ''{{a}}'' 10 = ''xxxxxxxxxx{{a}}''"
    by code_simp
  with loop have loop': "fragment_loop plain_String ?P ?cyc ''{{a}}'' 0 True =
      Inr (''xxxxxxxxxx{{a}}'', 10, True)"
    by (simp add: maxDepth_def)
  have f2: "fenced ''${variable}'' ''${'' ''}''"
    by code_simp
  have m2: "mentions ''${'' ''}'' ''go ${a}'' ''a''"
    by (simp add: placeholder_def)
  have "mentions ''${'' ''}'' ''${b}'' ''b''" "mentions ''${'' ''}'' ''<${a}>'' ''a''"
    by (simp_all add: placeholder_def)
  then have c2: "self_including ''${'' ''}'' ?two {''a'', ''b''}"
    by (simp add: self_including_def is_identifier_def ident_start_def)
  from fragment_depth_error_at_pass_cap
    [of plain_String "''${variable}''" "''go ${a}''" ?two _ _ _ _ "''${''" "''}''"
       "{''a'', ''b''}"]
    f2 c2 m2
  have err2: "substituteFragments plain_String ''${variable}'' ''go ${a}'' ?two =
      Inl depth_error"
    by blast
  have r0: "replaces plain_String ?P ?fr ''a {{f}} b'' 0" by code_simp
  have r1: "replaces plain_String ?P ?fr ''a {{f}} b'' 1" by code_simp
  have r2: "\<not> replaces plain_String ?P ?fr ''a {{f}} b'' 2" by code_simp
  have "\<forall>k<2. replaces plain_String ?P ?fr ''a {{f}} b'' k"
    using r0 r1 by (auto simp: less_Suc_eq numeral_2_eq_2)
  moreover have "(2::nat) < maxDepth - 1" by (simp add: maxDepth_def)
  ultimately have "substituteFragments plain_String ''{{variable}}'' ''a {{f}} b'' ?fr =
      Inr (text_after plain_String ?P ?fr ''a {{f}} b'' (Suc 2))"
    using r2 fragment_depth_error_at_pass_cap
      [of plain_String "''{{variable}}''" "''a {{f}} b''" ?fr _ _ _ 2]
    by blast
  moreover have "text_after plain_String ?P ?fr ''a {{f}} b'' (Suc 2) = ''a <G> b''"
    by code_simp
  ultimately have ok: "substituteFragments plain_String ''{{variable}}'' ''a {{f}} b'' ?fr =
      Inr ''a <G> b''"
    by simp
  have t8: "text_after plain_String ?P inherited_chain ''{{a}}'' 8 = ''{{constructor}}''"
    by code_simp
  have t9: "text_after plain_String ?P inherited_chain ''{{a}}'' 9 =
      ''function Object() { [native code] }''"
    by code_simp
  have e3: "substituteFragments plain_String ''{{variable}}'' ''{{a}}'' inherited_chain =
      Inl depth_error"
    by code_simp
  then have "\<forall>k<maxDepth - 1. replaces plain_String ?P inherited_chain ''{{a}}'' k"
    using fragment_depth_error_at_pass_cap
      [of plain_String "''{{variable}}''" "''{{a}}''" inherited_chain]
    by blast
  then have r8: "replaces plain_String ?P inherited_chain ''{{a}}'' 8"
    by (simp add: maxDepth_def)
  from f1 c1 m1 err loop' f2 c2 m2 err2 r0 r1 r2 ok t8 r8 t9 e3 show ?thesis
    by blast
qed

text \<open>
  The claim as it was stated fails at these inputs. Nine nested fragments are resolved
  by nine passes and the tenth pass replaces nothing, yet the depth error is raised. A
  fragment that includes itself raises nothing when the template does not name it. And
  with a syntax that is not fenced a template that names a fragment that includes itself
  can settle, because the pattern captures another name where the placeholder stands:
  with \<^verbatim>\<open>variable;\<close>, which has no opening text, in the second pass, when the text put in
  front of the placeholder has become part of the name; with \<^verbatim>\<open>%variable%\<close>, whose closing
  text contains the first character of the opening, when the match of another
  placeholder takes the \<^verbatim>\<open>%\<close> that opens the placeholder of the fragment; with
  \<^verbatim>\<open>xvariable;\<close>, whose opening text can be part of a name, with \<^verbatim>\<open>$variable\<close>, which has no
  closing text, and with \<^verbatim>\<open>$variablex\<close>, whose closing text can be part of a name, when the
  name goes on beyond the name of the fragment.
\<close>

theorem depth_error_without_replacement_at_cap:
  "substituteFragments plain_String ''{{variable}}'' ''{{a}}'' nested_fragments =
     Inl depth_error \<and>
   text_after plain_String (getSyntaxPattern ''{{variable}}'') nested_fragments ''{{a}}'' 9 =
     ''done'' \<and>
   \<not> replaces plain_String (getSyntaxPattern ''{{variable}}'') nested_fragments ''{{a}}'' 9 \<and>
   \<not> has_placeholder (getSyntaxPattern ''{{variable}}'') ''done'' \<and>
   substituteFragments plain_String ''{{variable}}'' ''hi'' [''a'' \<mapsto> ''{{a}}''] = Inr ''hi'' \<and>
   substituteFragments plain_String ''variable;'' ''a;f;'' [''a'' \<mapsto> ''x'', ''f'' \<mapsto> ''f;''] =
     Inr ''xf;'' \<and>
   substituteFragments plain_String ''%variable%'' ''%x%f%'' [''f'' \<mapsto> ''%f%''] =
     Inr ''%x%f%'' \<and>
   substituteFragments plain_String ''xvariable;'' ''xxf;'' [''f'' \<mapsto> ''xf;''] =
     Inr ''xxf;'' \<and>
   substituteFragments plain_String ''$variable'' ''$fx'' [''f'' \<mapsto> ''$f''] = Inr ''$fx'' \<and>
   substituteFragments plain_String ''$variablex'' ''$fxax'' [''f'' \<mapsto> ''$fx''] =
     Inr ''$fxax''"
proof (intro conjI)
  show "substituteFragments plain_String ''{{variable}}'' ''{{a}}'' nested_fragments =
      Inl depth_error"
    by code_simp
  show "text_after plain_String (getSyntaxPattern ''{{variable}}'') nested_fragments ''{{a}}'' 9 =
      ''done''"
    by code_simp
  show "\<not> replaces plain_String (getSyntaxPattern ''{{variable}}'') nested_fragments ''{{a}}'' 9"
    by code_simp
  show "\<not> has_placeholder (getSyntaxPattern ''{{variable}}'') ''done''"
    by code_simp
  show "substituteFragments plain_String ''{{variable}}'' ''hi'' [''a'' \<mapsto> ''{{a}}''] = Inr ''hi''"
    by code_simp
  show "substituteFragments plain_String ''variable;'' ''a;f;'' [''a'' \<mapsto> ''x'', ''f'' \<mapsto> ''f;''] =
      Inr ''xf;''"
    by code_simp
  show "substituteFragments plain_String ''%variable%'' ''%x%f%'' [''f'' \<mapsto> ''%f%''] =
      Inr ''%x%f%''"
    by code_simp
  show "substituteFragments plain_String ''xvariable;'' ''xxf;'' [''f'' \<mapsto> ''xf;''] =
      Inr ''xxf;''"
    by code_simp
  show "substituteFragments plain_String ''$variable'' ''$fx'' [''f'' \<mapsto> ''$f''] = Inr ''$fx''"
    by code_simp
  show "substituteFragments plain_String ''$variablex'' ''$fxax'' [''f'' \<mapsto> ''$fx''] =
      Inr ''$fxax''"
    by code_simp
qed

section \<open>Properties of the validation of variables\<close>

lemma and_then_Inr [simp]: "and_then (Inr ()) b = b"
  by (simp add: and_then_def)

lemma and_then_Inl_left [simp]: "and_then (Inl e) b = Inl e"
  by (simp add: and_then_def)

lemma raise_first_Nil [simp]: "raise_first [] = Inr ()"
  by (simp add: raise_first_def)

lemma raise_first_Cons [simp]: "raise_first (m # ms) = Inl (ValidationError m)"
  by (simp add: raise_first_def)















section \<open>Properties of the validators\<close>

lemma estimatedTokens_div: "estimatedTokens response = int ((length response + 3) div 4)"
proof -
  have "\<lceil>real n / 4\<rceil> = int ((n + 3) div 4)" for n :: nat
  proof -
    have "\<lceil>real n / 4\<rceil> = \<lceil>real_of_int (int n) / real_of_int 4\<rceil>" by simp
    also have "\<dots> = - ((- int n) div 4)" by (simp only: ceiling_divide_eq_div)
    also have "\<dots> = int ((n + 3) div 4)" by (simp add: zdiv_int)
    finally show ?thesis .
  qed
  then show ?thesis by (simp add: estimatedTokens_def)
qed

text \<open>
  C8. \<^verbatim>\<open>validateMaxLength\<close> compares the number of characters with \<^verbatim>\<open>max_characters\<close>
  first: when that bound is exceeded the result is the character failure, whatever the
  token bound is. Only otherwise the estimated number of tokens, the number of
  characters divided by 4 and rounded up, is compared with \<^verbatim>\<open>max_tokens\<close>; when
  neither bound is exceeded the validator passes. A response of 11 characters with
  \<^verbatim>\<open>max_characters = 10\<close> fails with the details \<^verbatim>\<open>{length: 11, max_characters: 10}\<close>.
\<close>

theorem validateMaxLength_characters_first:
  "(param max_characters v = Some c \<and> real (length r) > c \<longrightarrow>
      validateMaxLength r v =
        failing ''max_length'' (ExceedsChars (length r) c)
          [(''length'', JNum (real (length r))), (''max_characters'', JNum c)]) \<and>
   ((param max_characters v = None \<or> real (length r) \<le> the (param max_characters v)) \<and>
    param max_tokens v = Some t \<and> real_of_int (estimatedTokens r) > t \<longrightarrow>
      validateMaxLength r v =
        failing ''max_length'' (ExceedsTokens (estimatedTokens r) t)
          [(''estimated_tokens'', JNum (real_of_int (estimatedTokens r))), (''max_tokens'', JNum t)]) \<and>
   ((param max_characters v = None \<or> real (length r) \<le> the (param max_characters v)) \<and>
    (param max_tokens v = None \<or> real_of_int (estimatedTokens r) \<le> the (param max_tokens v)) \<longrightarrow>
      validateMaxLength r v = passing ''max_length'') \<and>
   estimatedTokens r = int ((length r + 3) div 4) \<and>
   (length r = 11 \<and> param max_characters v = Some 10 \<longrightarrow>
      \<not> passed (validateMaxLength r v) \<and>
      details (validateMaxLength r v) = Some [(''length'', JNum 11), (''max_characters'', JNum 10)])"
  by (auto simp: validateMaxLength_def Let_def failing_def estimatedTokens_div)

theorem validateMaxLength_characters_first_witness:
  "length ''hello world'' = 11 \<and>
   param max_characters
     \<lparr>vtype = ''max_length'', enabled = True, fail_on_violation = None,
      params = Some (no_params\<lparr>max_characters := Some 10, max_tokens := Some 1\<rparr>)\<rparr> = Some 10 \<and>
   \<not> passed (validateMaxLength ''hello world''
     \<lparr>vtype = ''max_length'', enabled = True, fail_on_violation = None,
      params = Some (no_params\<lparr>max_characters := Some 10, max_tokens := Some 1\<rparr>)\<rparr>) \<and>
   details (validateMaxLength ''hello world''
     \<lparr>vtype = ''max_length'', enabled = True, fail_on_violation = None,
      params = Some (no_params\<lparr>max_characters := Some 10, max_tokens := Some 1\<rparr>)\<rparr>) =
     Some [(''length'', JNum 11), (''max_characters'', JNum 10)]"
  using validateMaxLength_characters_first
    [of "\<lparr>vtype = ''max_length'', enabled = True, fail_on_violation = None,
      params = Some (no_params\<lparr>max_characters := Some 10, max_tokens := Some 1\<rparr>)\<rparr>"
      10 "''hello world''"]
  by (simp add: param_def no_params_def failing_def)

lemma runValidator_unknown:
  "\<not> isOOTBValidator (vtype v) \<Longrightarrow> runValidator E r v = Inr (unknown_outcome v)"
  by (simp add: runValidator_def isOOTBValidator_def OOTB_VALIDATORS_def unknown_outcome_def)

lemma validateResponse_unknown_all:
  "\<forall>v\<in>set vs. enabled v \<longrightarrow> \<not> isOOTBValidator (vtype v) \<Longrightarrow>
   validateResponse E r vs = Inr (map unknown_outcome (filter enabled vs))"
  by (induction vs) (simp_all add: runValidator_unknown unknown_outcome_def)

text \<open>
  C10. On the path of \<^verbatim>\<open>validateResponse\<close> an enabled validator whose type is not one of
  the four built-in types gets a passing result that carries only the message
  \<^verbatim>\<open>Unknown validator type\<close>; whatever its \<^verbatim>\<open>fail_on_violation\<close> flag is, the loop does not
  throw at it and goes on with the validators after it. A list whose enabled validators
  all have such types returns one passing result for each of them.
\<close>

theorem unknown_validator_type_passes:
  "(enabled v \<and> \<not> isOOTBValidator (vtype v) \<longrightarrow>
      runValidator E r v = Inr (unknown_outcome v) \<and>
      passed (unknown_outcome v) \<and>
      validateResponse E r (v # rest) =
        (case validateResponse E r rest of
           Inl e \<Rightarrow> Inl e
         | Inr rs \<Rightarrow> Inr (unknown_outcome v # rs))) \<and>
   ((\<forall>v\<in>set vs. enabled v \<longrightarrow> \<not> isOOTBValidator (vtype v)) \<longrightarrow>
      validateResponse E r vs = Inr (map unknown_outcome (filter enabled vs)))"
  by (simp add: runValidator_unknown validateResponse_unknown_all) (simp add: unknown_outcome_def)

theorem unknown_validator_type_passes_witness:
  "enabled \<lparr>vtype = ''sentiment'', enabled = True, fail_on_violation = Some True, params = None\<rparr> \<and>
   \<not> isOOTBValidator ''sentiment'' \<and>
   validateResponse plain_regex ''I hate this''
     [\<lparr>vtype = ''sentiment'', enabled = True, fail_on_violation = Some True, params = None\<rparr>] =
     Inr [\<lparr>passed = True, validatorType = ''sentiment'',
           message = Some (UnknownType ''sentiment''), details = None\<rparr>]"
  using unknown_validator_type_passes
    [of "\<lparr>vtype = ''sentiment'', enabled = True, fail_on_violation = Some True, params = None\<rparr>"
      plain_regex "''I hate this''" "[]" "[]"]
  by (simp add: isOOTBValidator_def OOTB_VALIDATORS_def unknown_outcome_def)

lemma validateResponse_append_throw:
  assumes "validateResponse E r pre = Inr rs"
    and "enabled v" and "runValidator E r v = Inr res"
    and "\<not> passed res" and "fail_on_violation v = Some True"
  shows "validateResponse E r (pre @ v # post) =
     Inl (GuardrailViolationError (message_or_default (message res)) (vtype v) (details res))"
  using assms(1)
proof (induction pre arbitrary: rs)
  case Nil
  show ?case using assms(2-5) by simp
next
  case (Cons a pre)
  then show ?case
    by (auto split: if_splits sum.splits)
qed

lemma validateResponse_no_throw:
  assumes "\<forall>v\<in>set vs. enabled v \<longrightarrow>
      (\<exists>res. runValidator E r v = Inr res \<and> (passed res \<or> fail_on_violation v \<noteq> Some True))"
  shows "\<exists>rs. validateResponse E r vs = Inr rs \<and>
      map Inr rs = map (runValidator E r) (filter enabled vs)"
  using assms
proof (induction vs)
  case Nil
  show ?case by simp
next
  case (Cons v vs)
  then obtain rs where rs: "validateResponse E r vs = Inr rs"
      "map Inr rs = map (runValidator E r) (filter enabled vs)"
    by auto
  show ?case
  proof (cases "enabled v")
    case False
    with rs show ?thesis by simp
  next
    case True
    with Cons.prems obtain res where "runValidator E r v = Inr res"
      "passed res \<or> fail_on_violation v \<noteq> Some True"
      by auto
    with True rs show ?thesis by auto
  qed
qed

text \<open>
  C6 (what the code does at one input). The response \<^verbatim>\<open>I like c++\<close> against the one enabled
  validator of the banned words \<^verbatim>\<open>c++\<close>, which has no \<^verbatim>\<open>fail_on_violation\<close>: no validator
  fails with the flag set, yet \<^verbatim>\<open>validateResponse\<close> returns no outcome. It throws the
  error of the host, which rejects the regular expression that \<^verbatim>\<open>validateBannedWords\<close>
  builds from the phrase without escaping it.
\<close>

theorem validateResponse_throws_without_critical_failure:
  "validateResponse plain_regex ''I like c++'' [banned_words_validator [''c++''] None] =
     Inl (SyntaxError ''Nothing to repeat'') \<and>
   enabled (banned_words_validator [''c++''] None) \<and>
   fail_on_violation (banned_words_validator [''c++''] None) = None \<and>
   plain_regex (word_boundary @ ''c++'' @ word_boundary) True ''I like c++'' =
     Inl ''Nothing to repeat''"
  by code_simp

text \<open>
  C7 (what the code does at two inputs). The words \<^verbatim>\<open>bad\<close> and \<^verbatim>\<open>evil\<close> against
  \<^verbatim>\<open>This is BAD\<close> fail and report \<^verbatim>\<open>bad\<close> as configured. The phrase \<^verbatim>\<open>e.g.\<close> against
  \<^verbatim>\<open>eggs\<close> fails too, although the response does not contain the phrase: the phrase goes
  into the regular expression unescaped, and its dots match any character.
\<close>

theorem validateBannedWords_phrase_as_pattern:
  "validateBannedWords plain_regex ''This is BAD''
     (banned_words_validator [''bad'', ''evil''] None) =
     Inr (failing ''banned_words'' (ContainsBanned [''bad''])
            [(''banned_words'', JArr [JStr ''bad''])]) \<and>
   validateBannedWords plain_regex ''eggs'' (banned_words_validator [''e.g.''] None) =
     Inr (failing ''banned_words'' (ContainsBanned [''e.g.''])
            [(''banned_words'', JArr [JStr ''e.g.''])])"
  by code_simp

section \<open>Properties of the validation runnable\<close>

lemma validateResponse_single:
  "enabled v \<Longrightarrow> runValidator E c v = Inr res \<Longrightarrow>
   passed res \<or> fail_on_violation v \<noteq> Some True \<Longrightarrow>
   validateResponse E c [v] = Inr [res]"
  by auto

lemma get_property_Own: "obj name = Some x \<Longrightarrow> get_property obj name = Own x"
  by (simp add: get_property_def)

lemma get_property_Inherited:
  "obj name = None \<Longrightarrow> name \<in> set object_prototype_names \<Longrightarrow>
   get_property obj name = Inherited name"
  by (simp add: get_property_def)

lemma get_property_Undefined:
  "get_property obj name = Undefined \<longleftrightarrow>
   obj name = None \<and> name \<notin> set object_prototype_names"
  by (simp add: get_property_def split: option.splits)

lemma runValidation_all_custom:
  "\<forall>v\<in>set vs. enabled v \<longrightarrow> customValidators this (vtype v) \<noteq> None \<Longrightarrow>
   runValidation E this vs c =
     Inr (map (\<lambda>v. Outcome (the (customValidators this (vtype v)) c v)) (filter enabled vs))"
  by (induction vs) (auto simp: get_property_Own)

text \<open>
  C5. In the loop of \<^verbatim>\<open>runValidation\<close>, the result for an enabled validator whose type has
  a custom implementation registered is the value of that implementation on the
  response text and the validator, whether or not the type is a built-in one and
  whatever the built-in evaluators would say. The built-in evaluator gives the result
  only when no implementation is registered for the type: the lookup of the type yields
  \<^verbatim>\<open>undefined\<close>, which sends the loop to the built-in evaluator, exactly when nothing is
  registered for the type and the type is not the name of a member that every object
  inherits from \<^verbatim>\<open>Object.prototype\<close>; the result is then the one of the built-in
  evaluator. For such a name with nothing registered the loop calls the inherited
  member, so the built-in evaluator does not run there either. When every enabled
  validator has an implementation registered, the results are the values of the
  implementations, in order.
\<close>

theorem runValidation_custom_first:
  "(enabled v \<and> customValidators this (vtype v) = Some f \<longrightarrow>
      runValidation E this (v # rest) c =
        (case runValidation E this rest c of
           Inl e \<Rightarrow> Inl e
         | Inr rs \<Rightarrow> Inr (Outcome (f c v) # rs))) \<and>
   (get_property (customValidators this) (vtype v) = Undefined \<longleftrightarrow>
      customValidators this (vtype v) = None \<and> vtype v \<notin> set object_prototype_names) \<and>
   (enabled v \<and> get_property (customValidators this) (vtype v) = Undefined \<and>
    runValidator E c v = Inr res \<and> (passed res \<or> fail_on_violation v \<noteq> Some True) \<longrightarrow>
      customValidators this (vtype v) = None \<and>
      runValidation E this (v # rest) c =
        (case runValidation E this rest c of
           Inl e \<Rightarrow> Inl e
         | Inr rs \<Rightarrow> Inr (Outcome res # rs))) \<and>
   (enabled v \<and> customValidators this (vtype v) = None \<and>
    vtype v \<in> set object_prototype_names \<longrightarrow>
      runValidation E this (v # rest) c =
        (case call_inherited (vtype v) c of
           Inl e \<Rightarrow> Inl e
         | Inr x \<Rightarrow>
             (case runValidation E this rest c of
                Inl e \<Rightarrow> Inl e
              | Inr rs \<Rightarrow> Inr (NotAResult x # rs)))) \<and>
   ((\<forall>v\<in>set vs. enabled v \<longrightarrow> customValidators this (vtype v) \<noteq> None) \<longrightarrow>
      runValidation E this vs c =
        Inr (map (\<lambda>v. Outcome (the (customValidators this (vtype v)) c v))
               (filter enabled vs)))"
proof (intro conjI impI)
  assume "enabled v \<and> customValidators this (vtype v) = Some f"
  then show "runValidation E this (v # rest) c =
      (case runValidation E this rest c of
         Inl e \<Rightarrow> Inl e | Inr rs \<Rightarrow> Inr (Outcome (f c v) # rs))"
    by (simp add: get_property_Own)
next
  show "get_property (customValidators this) (vtype v) = Undefined \<longleftrightarrow>
      customValidators this (vtype v) = None \<and> vtype v \<notin> set object_prototype_names"
    by (rule get_property_Undefined)
next
  assume a: "enabled v \<and> get_property (customValidators this) (vtype v) = Undefined \<and>
    runValidator E c v = Inr res \<and> (passed res \<or> fail_on_violation v \<noteq> Some True)"
  then show "customValidators this (vtype v) = None"
    by (simp add: get_property_Undefined)
  from a have "validateResponse E c [v] = Inr [res]"
    by (intro validateResponse_single) simp_all
  with a show "runValidation E this (v # rest) c =
      (case runValidation E this rest c of
         Inl e \<Rightarrow> Inl e | Inr rs \<Rightarrow> Inr (Outcome res # rs))"
    by simp
next
  assume "enabled v \<and> customValidators this (vtype v) = None \<and>
    vtype v \<in> set object_prototype_names"
  then show "runValidation E this (v # rest) c =
      (case call_inherited (vtype v) c of
         Inl e \<Rightarrow> Inl e
       | Inr x \<Rightarrow>
           (case runValidation E this rest c of
              Inl e \<Rightarrow> Inl e
            | Inr rs \<Rightarrow> Inr (NotAResult x # rs)))"
    by (simp add: get_property_Inherited split: sum.splits)
next
  assume "\<forall>v\<in>set vs. enabled v \<longrightarrow> customValidators this (vtype v) \<noteq> None"
  then show "runValidation E this vs c =
      Inr (map (\<lambda>v. Outcome (the (customValidators this (vtype v)) c v)) (filter enabled vs))"
    by (rule runValidation_all_custom)
qed

text \<open>
  The witness registers an implementation under the built-in type \<^verbatim>\<open>max_length\<close> that
  passes every response; the built-in evaluator would fail the response. A validator of
  the type \<^verbatim>\<open>sentiment\<close>, for which nothing is registered, gets the result of the built-in
  evaluator, and one of the type \<^verbatim>\<open>toString\<close> gets what the inherited function returns.
\<close>

theorem runValidation_custom_first_witness:
  "enabled (max_length_validator 5 (Some True)) \<and>
   isOOTBValidator (vtype (max_length_validator 5 (Some True))) \<and>
   \<not> passed (validateMaxLength ''too long text'' (max_length_validator 5 (Some True))) \<and>
   runValidation plain_regex
     \<lparr>validators = [max_length_validator 5 (Some True)],
      customValidators = [''max_length'' \<mapsto> (\<lambda>c v. passing ''anything'')],
      throwOnFailure = True, validationKey = ''_validation''\<rparr>
     [max_length_validator 5 (Some True)] ''too long text'' =
     Inr [Outcome (passing ''anything'')] \<and>
   runValidation plain_regex
     \<lparr>validators = [plain_validator ''sentiment'' None],
      customValidators = [''max_length'' \<mapsto> (\<lambda>c v. passing ''anything'')],
      throwOnFailure = True, validationKey = ''_validation''\<rparr>
     [plain_validator ''sentiment'' None] ''too long text'' =
     Inr [Outcome (unknown_outcome (plain_validator ''sentiment'' None))] \<and>
   runValidation plain_regex
     \<lparr>validators = [plain_validator ''toString'' None],
      customValidators = [''max_length'' \<mapsto> (\<lambda>c v. passing ''anything'')],
      throwOnFailure = True, validationKey = ''_validation''\<rparr>
     [plain_validator ''toString'' None] ''too long text'' =
     Inr [NotAResult (JStr ''[object Undefined]'')]"
proof -
  let ?customs = "[''max_length'' \<mapsto> (\<lambda>c v. passing ''anything'')] :: string \<rightharpoonup> CustomValidatorFn"
  let ?run = "\<lambda>vs. \<lparr>validators = vs, customValidators = ?customs,
       throwOnFailure = True, validationKey = ''_validation''\<rparr>"
  let ?max = "max_length_validator 5 (Some True)"
  let ?sentiment = "plain_validator ''sentiment'' None"
  let ?toString = "plain_validator ''toString'' None"
  have h: "enabled ?max" "isOOTBValidator (vtype ?max)"
    "\<not> passed (validateMaxLength ''too long text'' ?max)"
    by (simp_all add: max_length_validator_def isOOTBValidator_def OOTB_VALIDATORS_def
          validateMaxLength_def param_def no_params_def failing_def)
  have c: "customValidators (?run [?max]) (vtype ?max) = Some (\<lambda>c v. passing ''anything'')"
    by (simp add: max_length_validator_def)
  from runValidation_custom_first
    [of ?max "?run [?max]" "\<lambda>c v. passing ''anything''" plain_regex "[]" "''too long text''"]
    h(1) c
  have w1: "runValidation plain_regex (?run [?max]) [?max] ''too long text'' =
     Inr [Outcome (passing ''anything'')]"
    by simp
  have s: "enabled ?sentiment"
    "customValidators (?run [?sentiment]) (vtype ?sentiment) = None"
    "vtype ?sentiment \<notin> set object_prototype_names"
    "runValidator plain_regex ''too long text'' ?sentiment = Inr (unknown_outcome ?sentiment)"
    "passed (unknown_outcome ?sentiment)"
    by (simp_all add: plain_validator_def object_prototype_names_def runValidator_def
          unknown_outcome_def)
  from runValidation_custom_first
    [of ?sentiment "?run [?sentiment]" _ plain_regex "[]" "''too long text''"
       "unknown_outcome ?sentiment"] s
  have w2: "runValidation plain_regex (?run [?sentiment]) [?sentiment] ''too long text'' =
     Inr [Outcome (unknown_outcome ?sentiment)]"
    by simp
  have t: "enabled ?toString"
    "customValidators (?run [?toString]) (vtype ?toString) = None"
    "vtype ?toString \<in> set object_prototype_names"
    "call_inherited (vtype ?toString) ''too long text'' = Inr (JStr ''[object Undefined]'')"
    by (simp_all add: plain_validator_def object_prototype_names_def call_inherited_def)
  from runValidation_custom_first
    [of ?toString "?run [?toString]" _ plain_regex "[]" "''too long text''"] t
  have w3: "runValidation plain_regex (?run [?toString]) [?toString] ''too long text'' =
     Inr [NotAResult (JStr ''[object Undefined]'')]"
    by simp
  from h w1 w2 w3 show ?thesis by blast
qed








text \<open>
  C2 (what the code does at two inputs). A runnable built with \<^verbatim>\<open>throwOnFailure: false\<close>
  raises on a failing built-in validator that has \<^verbatim>\<open>fail_on_violation\<close>: the result of a
  built-in validator comes from \<^verbatim>\<open>validateResponse\<close>, which throws by itself. And a
  runnable in throw mode raises on three enabled validators of which only the second
  fails, without \<^verbatim>\<open>fail_on_violation\<close>, when the first has the same type and the flag:
  the flag is looked up by the type that the failing result names.
\<close>

theorem invoke_raises_at_built_in_failure:
  "new_ValidationRunnable
     \<lparr>opt_validators = [max_length_validator 5 (Some True)], opt_customValidators = None,
      opt_throwOnFailure = Some False, opt_validationKey = None\<rparr> =
     Inr \<lparr>validators = [max_length_validator 5 (Some True)], customValidators = Map.empty,
          throwOnFailure = False, validationKey = ''_validation''\<rparr> \<and>
   invoke S J E
     \<lparr>validators = [max_length_validator 5 (Some True)], customValidators = Map.empty,
      throwOnFailure = False, validationKey = ''_validation''\<rparr> (JStr ''too long text'') =
     Inl (GuardrailViolationError (ExceedsChars 13 5) ''max_length''
            (Some [(''length'', JNum 13), (''max_characters'', JNum 5)])) \<and>
   runValidation E
     \<lparr>validators = [max_length_validator 100 (Some True), max_length_validator 5 (Some False),
                    min_length_validator 1 (Some False)],
      customValidators = Map.empty, throwOnFailure = True, validationKey = ''_validation''\<rparr>
     [max_length_validator 100 (Some True), max_length_validator 5 (Some False),
      min_length_validator 1 (Some False)] ''too long text'' =
     Inr [Outcome (passing ''max_length''),
          Outcome (failing ''max_length'' (ExceedsChars 13 5)
            [(''length'', JNum 13), (''max_characters'', JNum 5)]),
          Outcome (passing ''min_length'')] \<and>
   invoke S J E
     \<lparr>validators = [max_length_validator 100 (Some True), max_length_validator 5 (Some False),
                    min_length_validator 1 (Some False)],
      customValidators = Map.empty, throwOnFailure = True, validationKey = ''_validation''\<rparr>
     (JStr ''too long text'') =
     Inl (GuardrailViolationError (ExceedsChars 13 5) ''max_length''
            (Some [(''length'', JNum 13), (''max_characters'', JNum 5)]))"
  by (simp add: new_ValidationRunnable_def validateValidatorImplementations_def Let_def
        max_length_validator_def min_length_validator_def isOOTBValidator_def
        OOTB_VALIDATORS_def invoke_def extractContent_def runValidator_def
        validateMaxLength_def validateMinLength_def param_def no_params_def failing_def
        passing_def message_or_default_def allValidatorsPassed_def getFailedValidators_def
        is_critical_def get_property_def object_prototype_names_def lookup_truthy_def)

end
